theory Spec2Isabelle
  imports Main "HOL-Library.Word" "HOL-Library.Multiset"
begin

unbundle bit_operations_syntax

section \<open>Host-orchestrated radix sort of 64-bit keys (opencl_sort.cpp)\<close>

text \<open>
  The model follows \<^verbatim>\<open>run_opencl_radix\<close> statement by statement. Machine integers are
  words: keys and \<^verbatim>\<open>size_t\<close>/\<^verbatim>\<open>uint64_t\<close> values are 64-bit words (an LP64 target),
  the host arrays \<^verbatim>\<open>gh\<close>, \<^verbatim>\<open>bt\<close>, \<^verbatim>\<open>pg\<close>, \<^verbatim>\<open>go\<close> hold 32-bit words. Loop indices
  are natural numbers; they stay far below the width of their C types.

  Of the OpenCL calls the model has what their specification fixes and the run depends
  on: \<^verbatim>\<open>clCreateBuffer\<close> rejects a size of 0 bytes, and the \<^verbatim>\<open>assert\<close> after the call
  then aborts the process; a kernel's write into a buffer created \<^verbatim>\<open>CL_MEM_READ_ONLY\<close> is
  undefined, so its effect is a parameter of the model. Failures that depend on the
  machine (no platform or device, a kernel that does not build, a size beyond the
  device's limits, a queue that breaks) are outside the model: they trip an \<^verbatim>\<open>assert\<close> of
  the source as well, and the model describes the runs in which they do not occur.
\<close>

type_synonym key = "64 word"
type_synonym u32 = "32 word"
type_synonym u64 = "64 word"

subsection \<open>Constants of \<^verbatim>\<open>run_opencl_radix\<close>\<close>

definition BITS :: nat where
  "BITS = 8"

definition RADIX :: nat where
  "RADIX = 2 ^ BITS"

definition LOCAL_SZ :: nat where
  "LOCAL_SZ = 256"

definition NUM_GROUPS :: "u64 \<Rightarrow> u64" where
  "NUM_GROUPS N = (N + of_nat LOCAL_SZ - 1) div of_nat LOCAL_SZ"

definition GLOBAL_SZ :: "u64 \<Rightarrow> u64" where
  "GLOBAL_SZ N = NUM_GROUPS N * of_nat LOCAL_SZ"

definition PASSES :: nat where
  "PASSES = (64 + BITS - 1) div BITS"

subsection \<open>Program state\<close>

text \<open>
  \<open>HostToDevice n\<close> and \<open>DeviceToHost n\<close> record one data movement of \<open>n\<close> bytes between
  the two memory domains. The field \<open>moved\<close> of the state lists the movements performed,
  in order; it is not a variable of the source.
\<close>

datatype transfer = HostToDevice nat | DeviceToHost nat

text \<open>
  The two key buffers on the device; \<^verbatim>\<open>buf_in\<close> and \<^verbatim>\<open>buf_out\<close> are handles to them.
  \<open>MemA\<close> is the buffer created first, with \<^verbatim>\<open>CL_MEM_READ_ONLY | CL_MEM_COPY_HOST_PTR\<close>;
  \<open>MemB\<close> is created with \<^verbatim>\<open>CL_MEM_READ_WRITE\<close>.
\<close>

datatype cl_mem = MemA | MemB

datatype mem_flags = CL_MEM_READ_ONLY | CL_MEM_READ_WRITE

text \<open>
  The caller's vectors. \<^verbatim>\<open>in\<close> and \<^verbatim>\<open>out\<close> are references: \<open>in_ref\<close> and \<open>out_ref\<close> say
  which vector each one names, and nothing in the signature keeps a caller from passing
  the same vector as both.
\<close>

datatype vector_id = VecA | VecB

text \<open>
  What the process prints, and how it ends: a failed \<^verbatim>\<open>assert\<close> (the process aborts),
  \<^verbatim>\<open>Mismatch!\<close> and \<^verbatim>\<open>exit(1)\<close>, or \<^verbatim>\<open>PASS\<close> and the two totals.
\<close>

datatype outcome =
    Assert_abort
  | Mismatch_exit nat
  | PASS_report u64 u64

text \<open>
  The field \<open>read_only_write\<close> is the device's behaviour where OpenCL leaves it undefined:
  what a buffer created \<^verbatim>\<open>CL_MEM_READ_ONLY\<close> holds after a kernel that writes to it, as a
  function of the old contents and of the contents the kernel computes.
\<close>

record state =
  total_host_to_device :: u64
  total_device_to_host :: u64
  moved :: "transfer list"
  host :: "vector_id \<Rightarrow> key list"
  in_ref :: vector_id
  out_ref :: vector_id
  cpu :: "key list"
  keybuf :: "cl_mem \<Rightarrow> key list"
  flags :: "cl_mem \<Rightarrow> mem_flags"
  read_only_write :: "key list \<Rightarrow> key list \<Rightarrow> key list"
  buf_in :: cl_mem
  buf_out :: cl_mem
  buf_gh :: "u32 list"
  buf_pg :: "u32 list"
  buf_go :: "u32 list"
  gh :: "u32 list"
  bt :: "u32 list"
  pg :: "u32 list"
  go :: "u32 list"
  zero :: "u32 list"

text \<open>The vectors \<^verbatim>\<open>in\<close> and \<^verbatim>\<open>out\<close> of the call.\<close>

definition in_vec :: "state \<Rightarrow> key list" where
  "in_vec st = host st (in_ref st)"

definition out_vec :: "state \<Rightarrow> key list" where
  "out_vec st = host st (out_ref st)"

subsection \<open>Memory helpers\<close>

text \<open>\<^verbatim>\<open>std::vector::resize(n)\<close>: keep the first \<open>n\<close> elements, fill up with zeros.\<close>

definition resize :: "nat \<Rightarrow> 'a::zero list \<Rightarrow> 'a list" where
  "resize n xs = take n xs @ replicate (n - length xs) 0"

text \<open>Copy the first \<open>n\<close> elements of \<open>src\<close> over the first \<open>n\<close> elements of \<open>dst\<close>.\<close>

definition memcpy :: "nat \<Rightarrow> 'a list \<Rightarrow> 'a list \<Rightarrow> 'a list" where
  "memcpy n src dst = take n src @ drop n dst"

text \<open>
  A kernel rewrites the cells of a device buffer; it cannot change the buffer's size.
  \<open>kernel_store old new\<close> is the buffer after the kernel, \<open>new\<close> being the contents the
  kernel computes.
\<close>

definition kernel_store :: "'a list \<Rightarrow> 'a list \<Rightarrow> 'a list" where
  "kernel_store old new = take (length old) (new @ drop (length new) old)"

text \<open>\<^verbatim>\<open>v.size() * sizeof(v[0])\<close> for a vector of 32-bit words, in \<^verbatim>\<open>size_t\<close> arithmetic.\<close>

definition bytes32 :: "u32 list \<Rightarrow> u64" where
  "bytes32 v = of_nat (length v) * 4"

text \<open>\<^verbatim>\<open>N * sizeof(cl_ulong)\<close>, in \<^verbatim>\<open>size_t\<close> arithmetic.\<close>

definition bytes64 :: "u64 \<Rightarrow> u64" where
  "bytes64 N = N * 8"

text \<open>\<^verbatim>\<open>NUM_GROUPS * RADIX * sizeof(cl_uint)\<close>, in \<^verbatim>\<open>size_t\<close> arithmetic.\<close>

definition hist_bytes :: "u64 \<Rightarrow> u64" where
  "hist_bytes N = NUM_GROUPS N * of_nat RADIX * 4"

text \<open>
  \<^verbatim>\<open>clCreateBuffer\<close> returns \<^verbatim>\<open>CL_INVALID_BUFFER_SIZE\<close> when its size \<open>sz\<close> is 0; the
  \<^verbatim>\<open>assert(err == CL_SUCCESS)\<close> after the call then fails.
\<close>

definition clCreateBuffer_fails :: "u64 \<Rightarrow> bool" where
  "clCreateBuffer_fails sz \<longleftrightarrow> sz = 0"

text \<open>
  Two devices. One discards what a kernel writes into a read-only buffer; the other does
  not look at the flag.
\<close>

definition enforcing :: "key list \<Rightarrow> key list \<Rightarrow> key list" where
  "enforcing old new = old"

definition lenient :: "key list \<Rightarrow> key list \<Rightarrow> key list" where
  "lenient old new = new"

subsection \<open>The counting wrappers\<close>

text \<open>
  \<^verbatim>\<open>ENQUEUE_WRITE\<close> and \<^verbatim>\<open>ENQUEUE_READ\<close> add \<open>sz\<close> to their counter and then enqueue the
  blocking copy. The copy itself is written at each use, where source and target are known.
\<close>

definition ENQUEUE_WRITE :: "u64 \<Rightarrow> state \<Rightarrow> state" where
  "ENQUEUE_WRITE sz st =
     st\<lparr>total_host_to_device := total_host_to_device st + sz,
        moved := moved st @ [HostToDevice (unat sz)]\<rparr>"

definition ENQUEUE_READ :: "u64 \<Rightarrow> state \<Rightarrow> state" where
  "ENQUEUE_READ sz st =
     st\<lparr>total_device_to_host := total_device_to_host st + sz,
        moved := moved st @ [DeviceToHost (unat sz)]\<rparr>"

subsection \<open>Host offset computation\<close>

text \<open>
  \<^verbatim>\<open>for (g = 0; g < NUM_GROUPS; ++g) sum += gh[g * RADIX + d];\<close> starting from \<open>sum = 0\<close>.
\<close>

definition digit_sum :: "u32 list \<Rightarrow> nat \<Rightarrow> nat \<Rightarrow> u32" where
  "digit_sum h G d = fold (\<lambda>g sum. sum + h ! (g * RADIX + d)) [0..<G] 0"

text \<open>\<^verbatim>\<open>for (d = 0; d < RADIX; ++d) { ...; bt[d] = sum; }\<close>\<close>

definition bucket_totals :: "u32 list \<Rightarrow> nat \<Rightarrow> u32 list \<Rightarrow> u32 list" where
  "bucket_totals h G b = fold (\<lambda>d b. b[d := digit_sum h G d]) [0..<RADIX] b"

text \<open>\<^verbatim>\<open>pg[0] = 0; for (d = 1; d < RADIX; ++d) pg[d] = pg[d - 1] + bt[d - 1];\<close>\<close>

definition global_prefix :: "u32 list \<Rightarrow> u32 list \<Rightarrow> u32 list" where
  "global_prefix b p = fold (\<lambda>d p. p[d := p ! (d - 1) + b ! (d - 1)]) [1..<RADIX] (p[0 := 0])"

text \<open>
  The inner loop of the group offsets, for one digit \<open>d\<close>: the pair is the array \<^verbatim>\<open>go\<close>
  and the running \<^verbatim>\<open>sum\<close>.
\<close>

definition group_walk :: "u32 list \<Rightarrow> nat \<Rightarrow> nat \<Rightarrow> u32 list \<times> u32 \<Rightarrow> u32 list \<times> u32" where
  "group_walk h G d =
     fold (\<lambda>g (o', sum). (o'[g * RADIX + d := sum], sum + h ! (g * RADIX + d))) [0..<G]"

definition group_offsets :: "u32 list \<Rightarrow> nat \<Rightarrow> u32 list \<Rightarrow> u32 list" where
  "group_offsets h G o' = fold (\<lambda>d o'. fst (group_walk h G d (o', 0))) [0..<RADIX] o'"

subsection \<open>One pass\<close>

text \<open>
  The two device stages are parameters of the host code: the kernel source is loaded at
  run time from \<^verbatim>\<open>../kernels/radix_kernels.cl\<close>. A histogram kernel maps the source keys,
  the histogram buffer, the 32-bit arguments \<open>n\<close> and \<open>shift\<close> and the number of work-groups
  launched to the new histogram buffer; a scatter kernel maps source keys, destination
  buffer, \<^verbatim>\<open>pg\<close>, \<^verbatim>\<open>go\<close>, \<open>n\<close>, \<open>shift\<close> and the number of work-groups to the new destination
  buffer.
\<close>

type_synonym hist_kernel = "key list \<Rightarrow> u32 list \<Rightarrow> u32 \<Rightarrow> u32 \<Rightarrow> nat \<Rightarrow> u32 list"

type_synonym scatter_kernel =
  "key list \<Rightarrow> key list \<Rightarrow> u32 list \<Rightarrow> u32 list \<Rightarrow> u32 \<Rightarrow> u32 \<Rightarrow> nat \<Rightarrow> key list"

text \<open>
  \<^verbatim>\<open>clSetKernelArg(k, i, sizeof(uint32_t), &N)\<close> hands over the first four bytes of the
  \<^verbatim>\<open>size_t\<close> variable: on a little-endian host, its low 32 bits.
\<close>

definition kernel_arg_N :: "u64 \<Rightarrow> u32" where
  "kernel_arg_N N = ucast N"

text \<open>\<^verbatim>\<open>uint32_t shift = pass * BITS;\<close>\<close>

definition shift_of :: "nat \<Rightarrow> u32" where
  "shift_of pass = of_nat (pass * BITS)"

text \<open>
  \<^verbatim>\<open>clEnqueueNDRangeKernel(q, k, 1, nullptr, &GLOBAL_SZ, &LOCAL_SZ, ...)\<close> launches
  \<^verbatim>\<open>GLOBAL_SZ\<close> work-items in work-groups of \<^verbatim>\<open>LOCAL_SZ\<close>; this is the number of
  work-groups.
\<close>

definition work_groups :: "u64 \<Rightarrow> nat" where
  "work_groups N = unat (GLOBAL_SZ N) div LOCAL_SZ"

text \<open>Zero the per-group histogram on the device.\<close>

definition zero_hist :: "state \<Rightarrow> state" where
  "zero_hist st =
     (ENQUEUE_WRITE (bytes32 (zero st)) st)
       \<lparr>buf_gh := memcpy (length (zero st)) (zero st) (buf_gh st)\<rparr>"

text \<open>Launch \<^verbatim>\<open>build_group_histogram\<close> on \<^verbatim>\<open>buf_in\<close> and wait.\<close>

definition run_hist :: "hist_kernel \<Rightarrow> u64 \<Rightarrow> nat \<Rightarrow> state \<Rightarrow> state" where
  "run_hist kh N pass st =
     st\<lparr>buf_gh := kernel_store (buf_gh st)
          (kh (keybuf st (buf_in st)) (buf_gh st) (kernel_arg_N N) (shift_of pass)
              (work_groups N))\<rparr>"

text \<open>Read the histogram back into \<^verbatim>\<open>gh\<close>.\<close>

definition read_hist :: "state \<Rightarrow> state" where
  "read_hist st =
     (ENQUEUE_READ (bytes32 (gh st)) st)
       \<lparr>gh := memcpy (length (gh st)) (buf_gh st) (gh st)\<rparr>"

text \<open>Bucket totals, global prefix and group offsets, on the host.\<close>

definition host_offsets :: "u64 \<Rightarrow> state \<Rightarrow> state" where
  "host_offsets N st =
     (let b = bucket_totals (gh st) (unat (NUM_GROUPS N)) (bt st)
      in st\<lparr>bt := b,
            pg := global_prefix b (pg st),
            go := group_offsets (gh st) (unat (NUM_GROUPS N)) (go st)\<rparr>)"

text \<open>Upload \<^verbatim>\<open>pg\<close> and \<^verbatim>\<open>go\<close>.\<close>

definition upload_offsets :: "state \<Rightarrow> state" where
  "upload_offsets st =
     (ENQUEUE_WRITE (bytes32 (go st)) (ENQUEUE_WRITE (bytes32 (pg st)) st))
       \<lparr>buf_pg := memcpy (length (pg st)) (pg st) (buf_pg st),
        buf_go := memcpy (length (go st)) (go st) (buf_go st)\<rparr>"

text \<open>
  Launch \<^verbatim>\<open>scatter_stable\<close> from \<^verbatim>\<open>buf_in\<close> to \<^verbatim>\<open>buf_out\<close> and wait. After the first
  swap \<^verbatim>\<open>buf_out\<close> names the buffer created \<^verbatim>\<open>CL_MEM_READ_ONLY\<close>: there the contents after
  the kernel are what the device makes of the write.
\<close>

definition run_scatter :: "scatter_kernel \<Rightarrow> u64 \<Rightarrow> nat \<Rightarrow> state \<Rightarrow> state" where
  "run_scatter ks N pass st =
     (let old = keybuf st (buf_out st);
          new = kernel_store old
            (ks (keybuf st (buf_in st)) old (buf_pg st) (buf_go st)
                (kernel_arg_N N) (shift_of pass) (work_groups N))
      in st\<lparr>keybuf := (keybuf st)(buf_out st :=
            (if flags st (buf_out st) = CL_MEM_READ_ONLY
             then kernel_store old (read_only_write st old new) else new))\<rparr>)"

text \<open>\<^verbatim>\<open>std::swap(buf_in, buf_out);\<close>\<close>

definition swap_buffers :: "state \<Rightarrow> state" where
  "swap_buffers st = st\<lparr>buf_in := buf_out st, buf_out := buf_in st\<rparr>"

text \<open>The body of the pass loop, up to the launch of the scatter kernel.\<close>

definition at_scatter :: "hist_kernel \<Rightarrow> u64 \<Rightarrow> nat \<Rightarrow> state \<Rightarrow> state" where
  "at_scatter kh N pass st =
     upload_offsets (host_offsets N (read_hist (run_hist kh N pass (zero_hist st))))"

text \<open>The body of the pass loop.\<close>

definition radix_pass :: "hist_kernel \<Rightarrow> scatter_kernel \<Rightarrow> u64 \<Rightarrow> nat \<Rightarrow> state \<Rightarrow> state" where
  "radix_pass kh ks N pass st =
     swap_buffers (run_scatter ks N pass (at_scatter kh N pass st))"

subsection \<open>The whole run\<close>

text \<open>
  Lines 47 to 49: the sorted reference copy of \<^verbatim>\<open>in\<close>, then \<^verbatim>\<open>out.resize(N)\<close>. Where
  \<^verbatim>\<open>out\<close> is the vector \<^verbatim>\<open>in\<close>, this resizes \<^verbatim>\<open>in\<close>.
\<close>

definition host_prepare :: "u64 \<Rightarrow> state \<Rightarrow> state" where
  "host_prepare N st =
     st\<lparr>cpu := sort (in_vec st),
        host := (host st)(out_ref st := resize (unat N) (out_vec st))\<rparr>"

text \<open>
  Lines 82 to 87, when both calls succeed: the two key buffers. \<^verbatim>\<open>buf_in\<close> is created
  with \<^verbatim>\<open>CL_MEM_READ_ONLY | CL_MEM_COPY_HOST_PTR\<close>: its creation copies
  \<^verbatim>\<open>N * sizeof(cl_ulong)\<close> bytes from \<^verbatim>\<open>in.data()\<close> to the device, without going through
  \<^verbatim>\<open>ENQUEUE_WRITE\<close>. \<^verbatim>\<open>buf_out\<close> is created \<^verbatim>\<open>CL_MEM_READ_WRITE\<close> and without
  contents: it has the right size and holds whatever the incoming state has there. Where
  \<^verbatim>\<open>in\<close> has fewer than \<^verbatim>\<open>N\<close> elements the source reads past its end; the model reads
  zeros there, and every statement about key contents assumes that \<^verbatim>\<open>in\<close> has \<^verbatim>\<open>N\<close>
  elements. The key buffers hold \<^verbatim>\<open>N\<close> keys; their size in bytes,
  \<^verbatim>\<open>N * sizeof(cl_ulong)\<close>, is a \<^verbatim>\<open>size_t\<close> product and is what the counters see.
\<close>

definition create_key_buffers :: "u64 \<Rightarrow> state \<Rightarrow> state" where
  "create_key_buffers N st =
     st\<lparr>moved := moved st @ [HostToDevice (unat (bytes64 N))],
        keybuf := (\<lambda>m. case m of MemA \<Rightarrow> resize (unat N) (in_vec st)
                                | MemB \<Rightarrow> resize (unat N) (keybuf st MemB)),
        flags := (\<lambda>m. case m of MemA \<Rightarrow> CL_MEM_READ_ONLY | MemB \<Rightarrow> CL_MEM_READ_WRITE),
        buf_in := MemA,
        buf_out := MemB\<rparr>"

text \<open>
  Lines 88 to 103, when the three calls succeed: the histogram, prefix and offset buffers,
  created without contents, and the host arrays, filled with zeros.
\<close>

definition create_work_buffers :: "u64 \<Rightarrow> state \<Rightarrow> state" where
  "create_work_buffers N st =
     (let G = unat (NUM_GROUPS N)
      in st\<lparr>buf_gh := resize (G * RADIX) (buf_gh st),
            buf_pg := resize RADIX (buf_pg st),
            buf_go := resize (G * RADIX) (buf_go st),
            gh := replicate (G * RADIX) 0,
            bt := replicate RADIX 0,
            pg := replicate RADIX 0,
            go := replicate (G * RADIX) 0,
            zero := replicate (G * RADIX) 0\<rparr>)"

text \<open>Everything before the loop, when every buffer is created.\<close>

definition prepare :: "u64 \<Rightarrow> state \<Rightarrow> state" where
  "prepare N st = create_work_buffers N (create_key_buffers N (host_prepare N st))"

text \<open>\<^verbatim>\<open>for (pass = 0; pass < PASSES; ++pass) { ... }\<close>, cut off after \<open>k\<close> iterations.\<close>

definition pass_loop :: "hist_kernel \<Rightarrow> scatter_kernel \<Rightarrow> u64 \<Rightarrow> nat \<Rightarrow> state \<Rightarrow> state" where
  "pass_loop kh ks N k st = fold (radix_pass kh ks N) [0..<k] st"

text \<open>
  Read the final data back from \<^verbatim>\<open>buf_in\<close> into \<^verbatim>\<open>out\<close>. Where \<^verbatim>\<open>out\<close> is the vector
  \<^verbatim>\<open>in\<close>, this overwrites \<^verbatim>\<open>in\<close>.
\<close>

definition read_final :: "u64 \<Rightarrow> state \<Rightarrow> state" where
  "read_final N st =
     (ENQUEUE_READ (bytes64 N) st)
       \<lparr>host := (host st)(out_ref st :=
          memcpy (unat N) (keybuf st (buf_in st)) (out_vec st))\<rparr>"

text \<open>
  Verify and report: \<^verbatim>\<open>Mismatch!\<close> on the error stream and \<^verbatim>\<open>exit(1)\<close>, or \<^verbatim>\<open>PASS\<close> and
  the two totals.
\<close>

definition verify_report :: "state \<Rightarrow> outcome" where
  "verify_report st =
     (if out_vec st \<noteq> cpu st then Mismatch_exit 1
      else PASS_report (total_host_to_device st) (total_device_to_host st))"

text \<open>The state at the end of a run in which every buffer is created.\<close>

definition final_state :: "hist_kernel \<Rightarrow> scatter_kernel \<Rightarrow> u64 \<Rightarrow> state \<Rightarrow> state" where
  "final_state kh ks N st = read_final N (pass_loop kh ks N PASSES (prepare N st))"

text \<open>
  The run. The two key buffers have the same size, so the asserts at lines 84 and 87 fail
  together; so do those at lines 90 and 96; \<^verbatim>\<open>buf_pg\<close> has \<^verbatim>\<open>RADIX * sizeof(cl_uint)\<close>
  bytes, which is not 0.
\<close>

definition run_opencl_radix ::
  "hist_kernel \<Rightarrow> scatter_kernel \<Rightarrow> u64 \<Rightarrow> state \<Rightarrow> state \<times> outcome" where
  "run_opencl_radix kh ks N st =
     (let st1 = host_prepare N st
      in if clCreateBuffer_fails (bytes64 N) then (st1, Assert_abort)
         else let st2 = create_key_buffers N st1
              in if clCreateBuffer_fails (hist_bytes N) then (st2, Assert_abort)
                 else let st' = read_final N
                                  (pass_loop kh ks N PASSES (create_work_buffers N st2))
                      in (st', verify_report st'))"

text \<open>Every \<^verbatim>\<open>clCreateBuffer\<close> of the run is given a size it accepts.\<close>

definition buffers_created :: "u64 \<Rightarrow> bool" where
  "buffers_created N \<longleftrightarrow>
     \<not> clCreateBuffer_fails (bytes64 N) \<and> \<not> clCreateBuffer_fails (hist_bytes N)"

text \<open>
  The state in which a process calls \<^verbatim>\<open>run_opencl_radix\<close> for the first time, with two
  different vectors: both counters have their static initial value 0, nothing has been
  moved, \<open>inp\<close> and \<open>outp\<close> are the caller's vectors, \<open>junk\<close> is what the device memory
  holds and \<open>dev\<close> is what the device does with a kernel's write to a read-only buffer.
\<close>

definition first_call ::
  "(key list \<Rightarrow> key list \<Rightarrow> key list) \<Rightarrow> key list \<Rightarrow> key list \<Rightarrow> key list \<Rightarrow> state" where
  "first_call dev inp outp junk =
     \<lparr>total_host_to_device = 0, total_device_to_host = 0, moved = [],
      host = (\<lambda>v. case v of VecA \<Rightarrow> inp | VecB \<Rightarrow> outp), in_ref = VecA, out_ref = VecB,
      cpu = [],
      keybuf = (\<lambda>m. junk), flags = (\<lambda>m. CL_MEM_READ_WRITE), read_only_write = dev,
      buf_in = MemA, buf_out = MemB,
      buf_gh = [], buf_pg = [], buf_go = [],
      gh = [], bt = [], pg = [], go = [], zero = []\<rparr>"


text \<open>
  The state of pass \<open>p\<close> of a run in which every buffer is created, at the moment the
  scatter kernel is launched.
\<close>

definition pass_state :: "hist_kernel \<Rightarrow> scatter_kernel \<Rightarrow> u64 \<Rightarrow> state \<Rightarrow> nat \<Rightarrow> state" where
  "pass_state kh ks N st p = at_scatter kh N p (pass_loop kh ks N p (prepare N st))"

subsection \<open>The device stages\<close>

text \<open>
  Modelled from the spec: the digit window of a key (spec section 3, "Digit window"). The
  kernel source \<^verbatim>\<open>radix_kernels.cl\<close> is not among the sources; the digit is the
  \<^verbatim>\<open>BITS\<close>-wide slice of the key starting at bit \<open>shift\<close>.
\<close>

definition digit :: "u32 \<Rightarrow> key \<Rightarrow> nat" where
  "digit shift k = unat (take_bit BITS (drop_bit (unat shift) k))"

text \<open>
  Modelled from the spec: the group partition (spec section 3, "Group"), which the missing
  kernels work on. Group \<open>g\<close> holds the indices of \<open>[0, n)\<close> from \<open>g * LOCAL_SZ\<close> up to
  \<open>(g + 1) * LOCAL_SZ\<close>; lanes past \<open>n\<close> take no part.
\<close>

definition group_members :: "nat \<Rightarrow> nat \<Rightarrow> nat list" where
  "group_members n g = [g * LOCAL_SZ ..< min n ((g + 1) * LOCAL_SZ)]"

text \<open>
  Modelled from the spec: the per-group histogram (spec section 3), the number of keys of
  group \<open>g\<close> whose current digit is \<open>d\<close>. The kernel is missing from the sources.
\<close>

definition group_count :: "key list \<Rightarrow> nat \<Rightarrow> u32 \<Rightarrow> nat \<Rightarrow> nat \<Rightarrow> nat" where
  "group_count src n shift g d =
     length (filter (\<lambda>i. digit shift (src ! i) = d) (group_members n g))"

text \<open>
  Modelled from the spec: the Histogram Stage, kernel \<^verbatim>\<open>build_group_histogram\<close> of the
  missing \<^verbatim>\<open>radix_kernels.cl\<close> (spec section 4.2). It produces the (group, digit) count
  mapping, laid out as the host reads it: cell \<open>g * RADIX + d\<close> is for group \<open>g\<close> and digit
  \<open>d\<close>. The counts are added, as 32-bit words, to what the histogram storage holds: the
  orchestrator clears the storage first so that stale values do not leak (spec section
  4.1, step 2).
\<close>

definition build_group_histogram :: hist_kernel where
  "build_group_histogram src ghb n shift G =
     map (\<lambda>j. ghb ! j + of_nat (group_count src (unat n) shift (j div RADIX) (j mod RADIX)))
       [0..<G * RADIX]"

text \<open>
  Modelled from the spec: the rank of key \<open>i\<close> (spec section 4.3), its 0-based position
  among the keys of its group with the same digit, the group scanned in increasing index
  order. The kernel is missing from the sources.
\<close>

definition rank :: "key list \<Rightarrow> u32 \<Rightarrow> nat \<Rightarrow> nat" where
  "rank src shift i =
     length (filter (\<lambda>j. digit shift (src ! j) = digit shift (src ! i))
       [(i div LOCAL_SZ) * LOCAL_SZ ..< i])"

text \<open>
  Modelled from the spec: the destination index of key \<open>i\<close> in the Scatter Stage (spec
  section 4.3), \<open>pg[digit] + go[group, digit] + rank\<close>, read from the device buffers.
\<close>

definition scatter_index :: "key list \<Rightarrow> u32 list \<Rightarrow> u32 list \<Rightarrow> u32 \<Rightarrow> nat \<Rightarrow> nat" where
  "scatter_index src pgb gob shift i =
     unat (pgb ! digit shift (src ! i))
       + unat (gob ! ((i div LOCAL_SZ) * RADIX + digit shift (src ! i)))
       + rank src shift i"

text \<open>
  Modelled from the spec: the Scatter Stage, kernel \<^verbatim>\<open>scatter_stable\<close> of the missing
  \<^verbatim>\<open>radix_kernels.cl\<close> (spec section 4.3). Every lane \<open>i\<close> below \<open>n\<close> of the \<open>G\<close> groups
  writes its key to its destination index. A write past the end of the destination is
  dropped in the model; for \<open>N < 2\<^sup>3\<^sup>2\<close> keys every destination index lies inside the
  buffer (\<open>scatter_index_stable\<close>, \<open>stable_pos_bound\<close>).
\<close>

definition scatter_stable :: scatter_kernel where
  "scatter_stable src dst pgb gob n shift G =
     fold (\<lambda>i dst. dst[scatter_index src pgb gob shift i := src ! i])
       [0..<min (unat n) (G * LOCAL_SZ)] dst"

text \<open>
  The index to which the destination indices of the first \<open>k\<close> passes send the key that
  starts at index \<open>i\<close> of the input, in a run with the two stages above.
\<close>

fun key_position :: "u64 \<Rightarrow> state \<Rightarrow> nat \<Rightarrow> nat \<Rightarrow> nat" where
  "key_position N st 0 i = i"
| "key_position N st (Suc k) i =
     (let s = pass_state build_group_histogram scatter_stable N st k
      in scatter_index (keybuf s (buf_in s)) (buf_pg s) (buf_go s) (shift_of k)
           (key_position N st k i))"

subsection \<open>Measuring a run\<close>

text \<open>The bytes moved from host to device, and from device to host, by a list of movements.\<close>

fun uploaded :: "transfer list \<Rightarrow> nat" where
  "uploaded [] = 0"
| "uploaded (HostToDevice n # ts) = n + uploaded ts"
| "uploaded (DeviceToHost n # ts) = uploaded ts"

fun downloaded :: "transfer list \<Rightarrow> nat" where
  "downloaded [] = 0"
| "downloaded (HostToDevice n # ts) = downloaded ts"
| "downloaded (DeviceToHost n # ts) = n + downloaded ts"


subsection \<open>The stable order of a pass\<close>

text \<open>
  The position of index \<open>i\<close> when the indices below \<open>n\<close> are ordered by \<open>f\<close> and, for
  equal values of \<open>f\<close>, by index: the number of indices with a smaller value, plus the
  number of earlier indices with the same value. It is what the proofs compare the
  destination index of the Scatter Stage with.
\<close>

definition stable_pos :: "(nat \<Rightarrow> nat) \<Rightarrow> nat \<Rightarrow> nat \<Rightarrow> nat" where
  "stable_pos f n i =
     length (filter (\<lambda>j. f j < f i) [0..<n]) + length (filter (\<lambda>j. f j = f i) [0..<i])"

subsection \<open>Sizes\<close>

text \<open>
  The sizes of all arrays and buffers and the flags of the two key buffers, as the
  preparation fixes them, and the two handles naming different buffers.
\<close>

definition sized :: "u64 \<Rightarrow> state \<Rightarrow> bool" where
  "sized N st \<longleftrightarrow>
     length (gh st) = unat (NUM_GROUPS N) * RADIX \<and>
     length (bt st) = RADIX \<and>
     length (pg st) = RADIX \<and>
     length (go st) = unat (NUM_GROUPS N) * RADIX \<and>
     zero st = replicate (unat (NUM_GROUPS N) * RADIX) 0 \<and>
     length (buf_gh st) = unat (NUM_GROUPS N) * RADIX \<and>
     length (buf_pg st) = RADIX \<and>
     length (buf_go st) = unat (NUM_GROUPS N) * RADIX \<and>
     length (keybuf st MemA) = unat N \<and>
     length (keybuf st MemB) = unat N \<and>
     length (out_vec st) = unat N \<and>
     flags st MemA = CL_MEM_READ_ONLY \<and>
     flags st MemB = CL_MEM_READ_WRITE \<and>
     buf_in st \<noteq> buf_out st"

section \<open>Properties\<close>

subsection \<open>The host loops\<close>

lemma RADIX_eq: "RADIX = 256"
  by (simp add: RADIX_def BITS_def)

lemma PASSES_eq: "PASSES = 8"
  by (simp add: PASSES_def BITS_def)

lemma work_groups_eq: "work_groups N = unat (NUM_GROUPS N)"
proof -
  let ?G = "(N + 256 - 1) div 256 :: u64"
  have "unat ?G = unat (N + 256 - 1) div unat (256 :: u64)"
    by (rule unat_div)
  also have "\<dots> \<le> (2 ^ 64 - 1) div 256"
    using unsigned_less [of "N + 256 - 1", where 'a = nat] by simp
  finally have "unat ?G * unat (256 :: u64) < 2 ^ LENGTH(64)"
    by simp
  then have "unat (?G * 256) = unat ?G * unat (256 :: u64)"
    by (simp only: unat_mult_lem)
  then show ?thesis
    by (simp add: work_groups_def GLOBAL_SZ_def NUM_GROUPS_def LOCAL_SZ_def)
qed

lemma fold_plus_upt:
  fixes a :: "'a::comm_monoid_add"
  shows "fold (\<lambda>g s. s + h g) [0..<G] a = a + (\<Sum>g<G. h g)"
  by (induction G) (simp_all add: add.assoc)

lemma digit_sum_eq: "digit_sum h G d = (\<Sum>g<G. h ! (g * RADIX + d))"
  by (simp add: digit_sum_def fold_plus_upt)

lemma length_fold_update:
  "length (fold (\<lambda>d b. b[d := f d b]) ds b) = length b"
  by (induction ds arbitrary: b) simp_all

lemma nth_fold_assign:
  "d < length b \<Longrightarrow> fold (\<lambda>d b. b[d := f d]) [0..<m] b ! d = (if d < m then f d else b ! d)"
proof (induction m)
  case 0
  then show ?case by simp
next
  case (Suc m)
  then show ?case
    by (cases "d = m") (simp_all add: length_fold_update)
qed

lemma length_bucket_totals: "length (bucket_totals h G b) = length b"
  by (simp add: bucket_totals_def length_fold_update)

lemma nth_bucket_totals:
  "d < RADIX \<Longrightarrow> d < length b \<Longrightarrow> bucket_totals h G b ! d = (\<Sum>g<G. h ! (g * RADIX + d))"
  by (simp add: bucket_totals_def nth_fold_assign digit_sum_eq)

lemma length_global_prefix: "length (global_prefix b p) = length p"
  by (simp add: global_prefix_def length_fold_update)

lemma prefix_loop:
  "m \<le> length p \<Longrightarrow> d < m \<Longrightarrow>
   fold (\<lambda>d p. p[d := p ! (d - 1) + b ! (d - 1)]) [1..<m] (p[0 := 0]) ! d = (\<Sum>e<d. b ! e)"
proof (induction m arbitrary: d)
  case 0
  then show ?case by simp
next
  case (Suc m)
  show ?case
  proof (cases "m = 0")
    case True
    with Suc.prems show ?thesis by (simp add: Suc_le_eq)
  next
    case False
    let ?F = "\<lambda>d p. p[d := p ! (d - 1) + b ! (d - 1)]"
    let ?P = "fold ?F [1..<m] (p[0 := 0])"
    have len: "length ?P = length p" by (simp add: length_fold_update)
    from False have step: "fold ?F [1..<Suc m] (p[0 := 0]) = ?P[m := ?P ! (m - 1) + b ! (m - 1)]"
      by simp
    show ?thesis
    proof (cases "d = m")
      case True
      have "?P ! (m - 1) = (\<Sum>e<m - 1. b ! e)"
        using Suc.IH [of "m - 1"] Suc.prems False by simp
      moreover have "(\<Sum>e<m - 1. b ! e) + b ! (m - 1) = (\<Sum>e<m. b ! e)"
        using False by (cases m) simp_all
      moreover have "m < length ?P"
        using Suc.prems len by simp
      ultimately show ?thesis
        unfolding step True by simp
    next
      case neq: False
      with Suc.prems have "d < m" by simp
      then show ?thesis
        unfolding step using Suc.IH [of d] Suc.prems neq by simp
    qed
  qed
qed

lemma nth_global_prefix:
  "RADIX \<le> length p \<Longrightarrow> d < RADIX \<Longrightarrow> global_prefix b p ! d = (\<Sum>e<d. b ! e)"
  unfolding global_prefix_def by (rule prefix_loop)

lemma group_walk_Suc:
  "group_walk h (Suc G) d os =
     (let r = group_walk h G d os
      in ((fst r)[G * RADIX + d := snd r], snd r + h ! (G * RADIX + d)))"
  by (simp add: group_walk_def Let_def case_prod_unfold)

lemma group_walk_0: "group_walk h 0 d os = os"
  by (simp add: group_walk_def)

lemma length_group_walk: "length (fst (group_walk h G d (o', s))) = length o'"
  by (induction G) (simp_all add: group_walk_0 group_walk_Suc Let_def)

lemma snd_group_walk: "snd (group_walk h G d (o', s)) = s + (\<Sum>g<G. h ! (g * RADIX + d))"
  by (induction G) (simp_all add: group_walk_0 group_walk_Suc Let_def add.assoc)

lemma group_walk_other:
  "(\<And>g. g < G \<Longrightarrow> j \<noteq> g * RADIX + d) \<Longrightarrow> fst (group_walk h G d (o', s)) ! j = o' ! j"
proof (induction G)
  case 0
  then show ?case by (simp add: group_walk_0)
next
  case (Suc G)
  have "j \<noteq> G * RADIX + d"
    using Suc.prems [of G] by simp
  moreover have "fst (group_walk h G d (o', s)) ! j = o' ! j"
    using Suc.prems by (intro Suc.IH) simp
  ultimately show ?case
    by (simp add: group_walk_Suc Let_def)
qed

lemma group_walk_nth:
  "g < G \<Longrightarrow> G * RADIX \<le> length o' \<Longrightarrow> d < RADIX \<Longrightarrow>
   fst (group_walk h G d (o', s)) ! (g * RADIX + d) = s + (\<Sum>e<g. h ! (e * RADIX + d))"
proof (induction G)
  case 0
  then show ?case by simp
next
  case (Suc G)
  have in_range: "G * RADIX + d < length (fst (group_walk h G d (o', s)))"
    using Suc.prems by (simp add: length_group_walk)
  show ?case
  proof (cases "g = G")
    case True
    with in_range show ?thesis
      by (simp add: group_walk_Suc Let_def snd_group_walk)
  next
    case False
    with Suc.prems have "g < G" by simp
    moreover from False have "g * RADIX + d \<noteq> G * RADIX + d"
      by (simp add: RADIX_eq)
    ultimately show ?thesis
      using Suc.IH Suc.prems by (simp add: group_walk_Suc Let_def)
  qed
qed

lemma length_group_offsets: "length (group_offsets h G o') = length o'"
proof -
  have "length (fold (\<lambda>d o'. fst (group_walk h G d (o', 0))) ds o') = length o'" for ds
    by (induction ds arbitrary: o') (simp_all add: length_group_walk)
  then show ?thesis by (simp add: group_offsets_def)
qed

lemma offsets_loop:
  "m \<le> RADIX \<Longrightarrow> G * RADIX \<le> length o' \<Longrightarrow> g < G \<Longrightarrow> d < m \<Longrightarrow>
   fold (\<lambda>d o'. fst (group_walk h G d (o', 0))) [0..<m] o' ! (g * RADIX + d)
     = (\<Sum>e<g. h ! (e * RADIX + d))"
proof (induction m)
  case 0
  then show ?case by simp
next
  case (Suc m)
  let ?O = "fold (\<lambda>d o'. fst (group_walk h G d (o', 0))) [0..<m] o'"
  have len: "length ?O = length o'"
  proof -
    have "length (fold (\<lambda>d o'. fst (group_walk h G d (o', 0))) ds o') = length o'" for ds
      by (induction ds arbitrary: o') (simp_all add: length_group_walk)
    then show ?thesis .
  qed
  show ?case
  proof (cases "d = m")
    case True
    with Suc.prems len show ?thesis
      by (simp add: group_walk_nth)
  next
    case False
    with Suc.prems have dm: "d < m" "m < RADIX" by simp_all
    have "g * RADIX + d \<noteq> e * RADIX + m" for e
    proof
      assume "g * RADIX + d = e * RADIX + m"
      then have "(g * RADIX + d) mod RADIX = (e * RADIX + m) mod RADIX" by simp
      with dm show False by simp
    qed
    then have "fst (group_walk h G m (?O, 0)) ! (g * RADIX + d) = ?O ! (g * RADIX + d)"
      by (intro group_walk_other) simp
    with Suc.IH Suc.prems dm show ?thesis by simp
  qed
qed

lemma nth_group_offsets:
  "G * RADIX \<le> length o' \<Longrightarrow> g < G \<Longrightarrow> d < RADIX \<Longrightarrow>
   group_offsets h G o' ! (g * RADIX + d) = (\<Sum>e<g. h ! (e * RADIX + d))"
  unfolding group_offsets_def by (rule offsets_loop) simp_all

subsection \<open>Sizes and frame of one pass\<close>

lemma length_resize: "length (resize n xs) = n"
  by (simp add: resize_def)

lemma resize_same: "length xs = n \<Longrightarrow> resize n xs = xs"
  by (simp add: resize_def)

lemma resize_resize: "resize n (resize n xs) = resize n xs"
  by (simp add: resize_same length_resize)

lemma memcpy_all: "length src = n \<Longrightarrow> length dst = n \<Longrightarrow> memcpy n src dst = src"
  by (simp add: memcpy_def)

lemma length_kernel_store: "length (kernel_store old new) = length old"
  by (simp add: kernel_store_def)

lemma kernel_store_same: "length new = length old \<Longrightarrow> kernel_store old new = new"
  by (simp add: kernel_store_def)

lemma kernel_store_twice: "kernel_store old (kernel_store old new) = kernel_store old new"
  by (simp add: kernel_store_same length_kernel_store)

lemma kernel_store_old: "kernel_store old old = old"
  by (simp add: kernel_store_same)

lemma host_prepare_fields:
  "in_ref (host_prepare N st) = in_ref st"
  "out_ref (host_prepare N st) = out_ref st"
  "cpu (host_prepare N st) = sort (in_vec st)"
  "out_vec (host_prepare N st) = resize (unat N) (out_vec st)"
  "in_ref st \<noteq> out_ref st \<Longrightarrow> in_vec (host_prepare N st) = in_vec st"
  "in_ref st = out_ref st \<Longrightarrow> in_vec (host_prepare N st) = resize (unat N) (in_vec st)"
  "total_host_to_device (host_prepare N st) = total_host_to_device st"
  "total_device_to_host (host_prepare N st) = total_device_to_host st"
  "moved (host_prepare N st) = moved st"
  "read_only_write (host_prepare N st) = read_only_write st"
  by (simp_all add: host_prepare_def in_vec_def out_vec_def)

lemma upload_source:
  "resize (unat N) (in_vec (host_prepare N st)) = resize (unat N) (in_vec st)"
  by (cases "in_ref st = out_ref st") (simp_all add: host_prepare_fields resize_resize)

lemma prepare_fields:
  "in_ref (prepare N st) = in_ref st"
  "out_ref (prepare N st) = out_ref st"
  "host (prepare N st) = host (host_prepare N st)"
  "cpu (prepare N st) = sort (in_vec st)"
  "total_host_to_device (prepare N st) = total_host_to_device st"
  "total_device_to_host (prepare N st) = total_device_to_host st"
  "moved (prepare N st) = moved st @ [HostToDevice (unat (bytes64 N))]"
  "read_only_write (prepare N st) = read_only_write st"
  "buf_in (prepare N st) = MemA"
  "buf_out (prepare N st) = MemB"
  "keybuf (prepare N st) MemA = resize (unat N) (in_vec st)"
  by (simp_all add: prepare_def create_work_buffers_def create_key_buffers_def Let_def
      host_prepare_fields upload_source)

lemma prepare_vectors:
  "out_vec (prepare N st) = resize (unat N) (out_vec st)"
  "in_ref st \<noteq> out_ref st \<Longrightarrow> in_vec (prepare N st) = in_vec st"
  by (simp_all add: in_vec_def out_vec_def prepare_fields host_prepare_def)

lemma sized_prepare: "sized N (prepare N st)"
  by (simp add: sized_def prepare_vectors length_resize)
    (simp add: prepare_def create_work_buffers_def create_key_buffers_def Let_def length_resize)

lemma length_keybuf: "sized N st \<Longrightarrow> length (keybuf st m) = unat N"
  by (cases m) (simp_all add: sized_def)

lemma at_scatter_fields:
  "host (at_scatter kh N p st) = host st"
  "in_ref (at_scatter kh N p st) = in_ref st"
  "out_ref (at_scatter kh N p st) = out_ref st"
  "cpu (at_scatter kh N p st) = cpu st"
  "keybuf (at_scatter kh N p st) = keybuf st"
  "flags (at_scatter kh N p st) = flags st"
  "read_only_write (at_scatter kh N p st) = read_only_write st"
  "buf_in (at_scatter kh N p st) = buf_in st"
  "buf_out (at_scatter kh N p st) = buf_out st"
  "zero (at_scatter kh N p st) = zero st"
  by (simp_all add: at_scatter_def upload_offsets_def host_offsets_def read_hist_def
      run_hist_def zero_hist_def ENQUEUE_WRITE_def ENQUEUE_READ_def Let_def)

lemma at_scatter_vectors:
  "in_vec (at_scatter kh N p st) = in_vec st"
  "out_vec (at_scatter kh N p st) = out_vec st"
  by (simp_all add: in_vec_def out_vec_def at_scatter_fields)

lemma at_scatter_counters:
  "total_host_to_device (at_scatter kh N p st) =
     total_host_to_device st + bytes32 (zero st) + bytes32 (pg st) + bytes32 (go st)"
  "total_device_to_host (at_scatter kh N p st) = total_device_to_host st + bytes32 (gh st)"
  "moved (at_scatter kh N p st) =
     moved st @ [HostToDevice (unat (bytes32 (zero st))), DeviceToHost (unat (bytes32 (gh st))),
                 HostToDevice (unat (bytes32 (pg st))), HostToDevice (unat (bytes32 (go st)))]"
  by (simp_all add: at_scatter_def upload_offsets_def host_offsets_def read_hist_def
      run_hist_def zero_hist_def ENQUEUE_WRITE_def ENQUEUE_READ_def Let_def bytes32_def
      length_global_prefix length_group_offsets memcpy_def)

lemma at_scatter_gh:
  assumes "sized N st"
  shows "gh (at_scatter kh N p st) =
     kernel_store (zero st)
       (kh (keybuf st (buf_in st)) (zero st) (kernel_arg_N N) (shift_of p) (unat (NUM_GROUPS N)))"
  using assms
  by (simp add: at_scatter_def upload_offsets_def host_offsets_def read_hist_def
      run_hist_def zero_hist_def ENQUEUE_WRITE_def ENQUEUE_READ_def Let_def sized_def
      memcpy_all length_kernel_store work_groups_eq)

lemma at_scatter_offsets:
  "bt (at_scatter kh N p st) = bucket_totals (gh (at_scatter kh N p st)) (unat (NUM_GROUPS N)) (bt st)"
  "pg (at_scatter kh N p st) = global_prefix (bt (at_scatter kh N p st)) (pg st)"
  "go (at_scatter kh N p st) = group_offsets (gh (at_scatter kh N p st)) (unat (NUM_GROUPS N)) (go st)"
  by (simp_all add: at_scatter_def upload_offsets_def host_offsets_def read_hist_def
      run_hist_def zero_hist_def ENQUEUE_WRITE_def ENQUEUE_READ_def Let_def)

lemma at_scatter_device:
  assumes "sized N st"
  shows "buf_pg (at_scatter kh N p st) = pg (at_scatter kh N p st)"
    and "buf_go (at_scatter kh N p st) = go (at_scatter kh N p st)"
  using assms
  by (simp_all add: at_scatter_def upload_offsets_def host_offsets_def read_hist_def
      run_hist_def zero_hist_def ENQUEUE_WRITE_def ENQUEUE_READ_def Let_def sized_def
      memcpy_all length_global_prefix length_group_offsets length_bucket_totals)

lemma sized_at_scatter: "sized N st \<Longrightarrow> sized N (at_scatter kh N p st)"
  by (simp add: sized_def at_scatter_vectors at_scatter_fields)
    (simp add: at_scatter_def upload_offsets_def host_offsets_def read_hist_def
      run_hist_def zero_hist_def ENQUEUE_WRITE_def ENQUEUE_READ_def Let_def
      memcpy_all length_global_prefix length_group_offsets length_bucket_totals
      length_kernel_store)

lemma radix_pass_fields:
  "host (radix_pass kh ks N p st) = host st"
  "in_ref (radix_pass kh ks N p st) = in_ref st"
  "out_ref (radix_pass kh ks N p st) = out_ref st"
  "cpu (radix_pass kh ks N p st) = cpu st"
  "flags (radix_pass kh ks N p st) = flags st"
  "read_only_write (radix_pass kh ks N p st) = read_only_write st"
  "zero (radix_pass kh ks N p st) = zero st"
  "buf_in (radix_pass kh ks N p st) = buf_out st"
  "buf_out (radix_pass kh ks N p st) = buf_in st"
  "gh (radix_pass kh ks N p st) = gh (at_scatter kh N p st)"
  "bt (radix_pass kh ks N p st) = bt (at_scatter kh N p st)"
  "pg (radix_pass kh ks N p st) = pg (at_scatter kh N p st)"
  "go (radix_pass kh ks N p st) = go (at_scatter kh N p st)"
  "buf_gh (radix_pass kh ks N p st) = buf_gh (at_scatter kh N p st)"
  "buf_pg (radix_pass kh ks N p st) = buf_pg (at_scatter kh N p st)"
  "buf_go (radix_pass kh ks N p st) = buf_go (at_scatter kh N p st)"
  "total_host_to_device (radix_pass kh ks N p st) = total_host_to_device (at_scatter kh N p st)"
  "total_device_to_host (radix_pass kh ks N p st) = total_device_to_host (at_scatter kh N p st)"
  "moved (radix_pass kh ks N p st) = moved (at_scatter kh N p st)"
  by (simp_all add: radix_pass_def swap_buffers_def run_scatter_def at_scatter_fields Let_def)

lemma radix_pass_vectors:
  "in_vec (radix_pass kh ks N p st) = in_vec st"
  "out_vec (radix_pass kh ks N p st) = out_vec st"
  by (simp_all add: in_vec_def out_vec_def radix_pass_fields)

text \<open>The key buffers after a pass: the destination is what the flag and the device allow.\<close>

lemma radix_pass_keybuf:
  "keybuf (radix_pass kh ks N p st) =
     (keybuf st)(buf_out st :=
       (if flags st (buf_out st) = CL_MEM_READ_ONLY
        then kernel_store (keybuf st (buf_out st))
               (read_only_write st (keybuf st (buf_out st))
                 (kernel_store (keybuf st (buf_out st))
                   (ks (keybuf st (buf_in st)) (keybuf st (buf_out st))
                       (buf_pg (at_scatter kh N p st)) (buf_go (at_scatter kh N p st))
                       (kernel_arg_N N) (shift_of p) (unat (NUM_GROUPS N)))))
        else kernel_store (keybuf st (buf_out st))
               (ks (keybuf st (buf_in st)) (keybuf st (buf_out st))
                   (buf_pg (at_scatter kh N p st)) (buf_go (at_scatter kh N p st))
                   (kernel_arg_N N) (shift_of p) (unat (NUM_GROUPS N)))))"
  by (simp add: radix_pass_def swap_buffers_def run_scatter_def at_scatter_fields Let_def
      work_groups_eq)

lemma radix_pass_source:
  "buf_in st \<noteq> buf_out st \<Longrightarrow>
   keybuf (radix_pass kh ks N p st) (buf_in st) = keybuf st (buf_in st)"
  by (simp add: radix_pass_keybuf)

lemma radix_pass_written:
  assumes "flags st (buf_out st) = CL_MEM_READ_WRITE \<or> read_only_write st = lenient"
  shows "keybuf (radix_pass kh ks N p st) (buf_out st) =
     kernel_store (keybuf st (buf_out st))
       (ks (keybuf st (buf_in st)) (keybuf st (buf_out st))
           (buf_pg (at_scatter kh N p st)) (buf_go (at_scatter kh N p st))
           (kernel_arg_N N) (shift_of p) (unat (NUM_GROUPS N)))"
  using assms by (auto simp add: radix_pass_keybuf lenient_def kernel_store_twice)

lemma radix_pass_discarded:
  assumes "flags st (buf_out st) = CL_MEM_READ_ONLY" and "read_only_write st = enforcing"
  shows "keybuf (radix_pass kh ks N p st) (buf_out st) = keybuf st (buf_out st)"
  using assms by (simp add: radix_pass_keybuf enforcing_def kernel_store_old)

lemma length_radix_pass_keybuf:
  "length (keybuf (radix_pass kh ks N p st) m) = length (keybuf st m)"
  by (simp add: radix_pass_keybuf length_kernel_store)

lemma sized_radix_pass:
  assumes "sized N st"
  shows "sized N (radix_pass kh ks N p st)"
proof -
  have s: "sized N (at_scatter kh N p st)"
    using assms by (rule sized_at_scatter)
  have "buf_out st \<noteq> buf_in st"
    using assms by (auto simp add: sized_def)
  with s show ?thesis
    by (simp add: sized_def radix_pass_fields radix_pass_vectors length_radix_pass_keybuf
        at_scatter_vectors at_scatter_fields)
qed

lemma pass_loop_0: "pass_loop kh ks N 0 st = st"
  by (simp add: pass_loop_def)

lemma pass_loop_Suc:
  "pass_loop kh ks N (Suc k) st = radix_pass kh ks N k (pass_loop kh ks N k st)"
  by (simp add: pass_loop_def)

lemma sized_pass_loop: "sized N st \<Longrightarrow> sized N (pass_loop kh ks N k st)"
  by (induction k) (simp_all add: pass_loop_0 pass_loop_Suc sized_radix_pass)

lemma pass_loop_fields:
  "host (pass_loop kh ks N k st) = host st"
  "in_ref (pass_loop kh ks N k st) = in_ref st"
  "out_ref (pass_loop kh ks N k st) = out_ref st"
  "cpu (pass_loop kh ks N k st) = cpu st"
  "flags (pass_loop kh ks N k st) = flags st"
  "read_only_write (pass_loop kh ks N k st) = read_only_write st"
  "zero (pass_loop kh ks N k st) = zero st"
  by (induction k) (simp_all add: pass_loop_0 pass_loop_Suc radix_pass_fields)

lemma pass_loop_vectors:
  "in_vec (pass_loop kh ks N k st) = in_vec st"
  "out_vec (pass_loop kh ks N k st) = out_vec st"
  by (simp_all add: in_vec_def out_vec_def pass_loop_fields)

lemma pass_loop_handles:
  "buf_in (pass_loop kh ks N k st) = (if even k then buf_in st else buf_out st)"
  "buf_out (pass_loop kh ks N k st) = (if even k then buf_out st else buf_in st)"
  by (induction k) (simp_all add: pass_loop_0 pass_loop_Suc radix_pass_fields)

lemma sized_pass_state: "sized N (pass_state kh ks N st p)"
  by (simp add: pass_state_def sized_at_scatter sized_pass_loop sized_prepare)

subsection \<open>Frame and counters of the whole run\<close>

lemma read_final_fields:
  "in_ref (read_final N st) = in_ref st"
  "out_ref (read_final N st) = out_ref st"
  "cpu (read_final N st) = cpu st"
  "total_host_to_device (read_final N st) = total_host_to_device st"
  "total_device_to_host (read_final N st) = total_device_to_host st + bytes64 N"
  "moved (read_final N st) = moved st @ [DeviceToHost (unat (bytes64 N))]"
  "out_vec (read_final N st) = memcpy (unat N) (keybuf st (buf_in st)) (out_vec st)"
  "in_ref st \<noteq> out_ref st \<Longrightarrow> in_vec (read_final N st) = in_vec st"
  by (simp_all add: read_final_def ENQUEUE_READ_def in_vec_def out_vec_def)

lemma out_vec_final:
  "out_vec (final_state kh ks N st) =
     keybuf (pass_loop kh ks N PASSES (prepare N st))
       (buf_in (pass_loop kh ks N PASSES (prepare N st)))"
proof -
  let ?S = "pass_loop kh ks N PASSES (prepare N st)"
  have sz: "sized N ?S"
    by (simp add: sized_pass_loop sized_prepare)
  have "length (keybuf ?S (buf_in ?S)) = unat N"
    using sz by (rule length_keybuf)
  moreover have "length (out_vec ?S) = unat N"
    using sz by (simp add: sized_def)
  ultimately show ?thesis
    by (simp add: final_state_def read_final_fields memcpy_all)
qed


lemma final_state_frame:
  "cpu (final_state kh ks N st) = sort (in_vec st)"
  "in_ref st \<noteq> out_ref st \<Longrightarrow> in_vec (final_state kh ks N st) = in_vec st"
  by (simp_all add: final_state_def read_final_fields pass_loop_fields pass_loop_vectors
      prepare_fields prepare_vectors)

lemma sized_bytes:
  assumes "sized N st"
  shows "bytes32 (zero st) = NUM_GROUPS N * 1024"
    and "bytes32 (gh st) = NUM_GROUPS N * 1024"
    and "bytes32 (go st) = NUM_GROUPS N * 1024"
    and "bytes32 (pg st) = 1024"
  using assms by (simp_all add: sized_def bytes32_def RADIX_eq)

lemma at_scatter_counters_sized:
  assumes "sized N st"
  shows "total_host_to_device (at_scatter kh N p st) =
           total_host_to_device st + (NUM_GROUPS N * 2048 + 1024)"
    and "total_device_to_host (at_scatter kh N p st) =
           total_device_to_host st + NUM_GROUPS N * 1024"
  by (simp_all add: at_scatter_counters sized_bytes [OF assms])

lemma pass_loop_counters:
  assumes "sized N st"
  shows "total_host_to_device (pass_loop kh ks N k st) =
           total_host_to_device st + of_nat k * (NUM_GROUPS N * 2048 + 1024)"
    and "total_device_to_host (pass_loop kh ks N k st) =
           total_device_to_host st + of_nat k * (NUM_GROUPS N * 1024)"
proof (induction k)
  case 0
  {
    case 1 show ?case by (simp add: pass_loop_0)
  next
    case 2 show ?case by (simp add: pass_loop_0)
  }
next
  case (Suc k)
  have sz: "sized N (pass_loop kh ks N k st)"
    using assms by (rule sized_pass_loop)
  {
    case 1
    show ?case
      by (simp add: pass_loop_Suc radix_pass_fields at_scatter_counters_sized [OF sz] Suc.IH
          algebra_simps)
  next
    case 2
    show ?case
      by (simp add: pass_loop_Suc radix_pass_fields at_scatter_counters_sized [OF sz] Suc.IH
          algebra_simps)
  }
qed

lemma final_counters:
  "total_host_to_device (final_state kh ks N st) =
     total_host_to_device st + 8 * (NUM_GROUPS N * 2048 + 1024)"
  "total_device_to_host (final_state kh ks N st) =
     total_device_to_host st + 8 * (NUM_GROUPS N * 1024) + bytes64 N"
  by (simp_all add: final_state_def read_final_fields pass_loop_counters [OF sized_prepare]
      prepare_fields PASSES_eq)

subsection \<open>Transfers\<close>

lemma uploaded_append: "uploaded (xs @ ys) = uploaded xs + uploaded ys"
  by (induction xs rule: uploaded.induct) simp_all

lemma downloaded_append: "downloaded (xs @ ys) = downloaded xs + downloaded ys"
  by (induction xs rule: downloaded.induct) simp_all

lemma pass_loop_moved:
  assumes "sized N st"
  shows "uploaded (moved (pass_loop kh ks N k st)) =
           uploaded (moved st) + k * (2 * unat (NUM_GROUPS N * 1024) + 1024)"
    and "downloaded (moved (pass_loop kh ks N k st)) =
           downloaded (moved st) + k * unat (NUM_GROUPS N * 1024)"
proof (induction k)
  case 0
  {
    case 1 show ?case by (simp add: pass_loop_0)
  next
    case 2 show ?case by (simp add: pass_loop_0)
  }
next
  case (Suc k)
  have sz: "sized N (pass_loop kh ks N k st)"
    using assms by (rule sized_pass_loop)
  {
    case 1
    show ?case
      by (simp add: pass_loop_Suc radix_pass_fields at_scatter_counters sized_bytes [OF sz]
          uploaded_append Suc.IH)
  next
    case 2
    show ?case
      by (simp add: pass_loop_Suc radix_pass_fields at_scatter_counters sized_bytes [OF sz]
          downloaded_append Suc.IH)
  }
qed

lemma final_moved:
  "uploaded (moved (final_state kh ks N st)) =
     uploaded (moved st) + unat (bytes64 N) + 8 * (2 * unat (NUM_GROUPS N * 1024) + 1024)"
  "downloaded (moved (final_state kh ks N st)) =
     downloaded (moved st) + 8 * unat (NUM_GROUPS N * 1024) + unat (bytes64 N)"
  by (simp_all add: final_state_def read_final_fields pass_loop_moved [OF sized_prepare]
      prepare_fields PASSES_eq uploaded_append downloaded_append)

text \<open>A run in which every buffer is created goes through every step.\<close>

lemma run_created:
  assumes "buffers_created N"
  shows "fst (run_opencl_radix kh ks N st) = final_state kh ks N st"
    and "snd (run_opencl_radix kh ks N st) = verify_report (final_state kh ks N st)"
  using assms
  by (simp_all add: run_opencl_radix_def buffers_created_def final_state_def prepare_def Let_def)


lemma NUM_GROUPS_0: "NUM_GROUPS 0 = 0"
  by (simp add: NUM_GROUPS_def LOCAL_SZ_def)

lemma NUM_GROUPS_2: "NUM_GROUPS 2 = 1"
  by (simp add: NUM_GROUPS_def LOCAL_SZ_def)

lemma NUM_GROUPS_4: "NUM_GROUPS 4 = 1"
  by (simp add: NUM_GROUPS_def LOCAL_SZ_def)

lemma NUM_GROUPS_300: "NUM_GROUPS 300 = 2"
  by (simp add: NUM_GROUPS_def LOCAL_SZ_def)


lemma buffers_created_2: "buffers_created 2"
  by (simp add: buffers_created_def clCreateBuffer_fails_def bytes64_def hist_bytes_def
      NUM_GROUPS_2 RADIX_eq)

lemma buffers_created_4: "buffers_created 4"
  by (simp add: buffers_created_def clCreateBuffer_fails_def bytes64_def hist_bytes_def
      NUM_GROUPS_4 RADIX_eq)

lemma first_call_fields:
  "in_vec (first_call dev i o' j) = i"
  "out_vec (first_call dev i o' j) = o'"
  "in_ref (first_call dev i o' j) \<noteq> out_ref (first_call dev i o' j)"
  "read_only_write (first_call dev i o' j) = dev"
  "total_host_to_device (first_call dev i o' j) = 0"
  "total_device_to_host (first_call dev i o' j) = 0"
  "moved (first_call dev i o' j) = []"
  by (simp_all add: first_call_def in_vec_def out_vec_def)


text \<open>
  Claim C5 (transfer counters equal the exact sum of all transfers performed). On the
  input \<open>[5, 3, 3, 1]\<close> with \<open>N = 4\<close>, in a process that starts with both counters at 0,
  whatever the kernels do and whatever the device does with writes to its read-only
  buffer, the host-to-device counter ends at 24576 bytes, while the uploads performed add
  up to 24608 bytes: the 32 bytes of the input, copied to the device when \<^verbatim>\<open>buf_in\<close> is
  created, are not counted. The device-to-host counter ends at 8224 bytes, which is what
  was downloaded, the 32 bytes of the output included.
\<close>
theorem input_upload_not_counted:
  "unat (total_host_to_device
          (fst (run_opencl_radix kh ks 4 (first_call dev [5, 3, 3, 1] [] [])))) = 24576
   \<and> uploaded (moved
          (fst (run_opencl_radix kh ks 4 (first_call dev [5, 3, 3, 1] [] [])))) = 24608
   \<and> unat (total_device_to_host
          (fst (run_opencl_radix kh ks 4 (first_call dev [5, 3, 3, 1] [] [])))) = 8224
   \<and> downloaded (moved
          (fst (run_opencl_radix kh ks 4 (first_call dev [5, 3, 3, 1] [] [])))) = 8224"
  by (simp add: run_created [OF buffers_created_4] final_counters final_moved
      first_call_fields NUM_GROUPS_4 bytes64_def)

subsection \<open>Host-side claims\<close>

text \<open>
  Claim C4 (per-group offsets). In every pass \<open>p\<close> and for every digit \<open>d\<close>, the walk over
  the groups in increasing order leaves in \<^verbatim>\<open>go[g * RADIX + d]\<close> the sum of the histogram
  counts of digit \<open>d\<close> over all groups before \<open>g\<close>, in 32-bit arithmetic; this is the array
  uploaded to the device. The histogram kernel is arbitrary.
\<close>
theorem group_offsets_running_sum:
  assumes "g < unat (NUM_GROUPS N)" and "d < RADIX"
  shows "go (pass_state kh ks N st p) ! (g * RADIX + d)
           = (\<Sum>e<g. gh (pass_state kh ks N st p) ! (e * RADIX + d))
         \<and> buf_go (pass_state kh ks N st p) = go (pass_state kh ks N st p)"
proof -
  let ?S = "pass_loop kh ks N p (prepare N st)"
  have sz: "sized N ?S"
    by (simp add: sized_pass_loop sized_prepare)
  then have "unat (NUM_GROUPS N) * RADIX \<le> length (go ?S)"
    by (simp add: sized_def)
  then have "group_offsets (gh (at_scatter kh N p ?S)) (unat (NUM_GROUPS N)) (go ?S) ! (g * RADIX + d)
      = (\<Sum>e<g. gh (at_scatter kh N p ?S) ! (e * RADIX + d))"
    using assms by (rule nth_group_offsets)
  then show ?thesis
    by (simp add: pass_state_def at_scatter_offsets at_scatter_device [OF sz])
qed

theorem group_offsets_running_sum_witness:
  "1 < unat (NUM_GROUPS 300) \<and> 5 < RADIX
   \<and> go (pass_state build_group_histogram scatter_stable 300
           (first_call enforcing (replicate 300 7) [] []) 0)
        ! (1 * RADIX + 5)
      = (\<Sum>e<1. gh (pass_state build_group_histogram scatter_stable 300
                      (first_call enforcing (replicate 300 7) [] []) 0)
           ! (e * RADIX + 5))"
  using group_offsets_running_sum [of 1 300 5 build_group_histogram scatter_stable
      "first_call enforcing (replicate 300 7) [] []" 0]
  by (simp add: NUM_GROUPS_300 RADIX_eq)

subsection \<open>The two key buffers\<close>

text \<open>
  After any number \<open>k\<close> of passes the two handles name different buffers, and so they do
  when the scatter kernel of pass \<open>k\<close> is launched; pass \<open>k\<close> exchanges the two handles and
  leaves the contents of its source buffer alone; and the vector \<^verbatim>\<open>out\<close> ends as the
  contents of the buffer that \<^verbatim>\<open>buf_in\<close> names after the last pass.
\<close>

lemma handles_swap:
  "buf_in (pass_loop kh ks N k (prepare N st)) \<noteq> buf_out (pass_loop kh ks N k (prepare N st))"
  "buf_in (pass_state kh ks N st k) = buf_in (pass_loop kh ks N k (prepare N st))"
  "buf_out (pass_state kh ks N st k) = buf_out (pass_loop kh ks N k (prepare N st))"
  "buf_in (pass_loop kh ks N (Suc k) (prepare N st)) = buf_out (pass_loop kh ks N k (prepare N st))"
  "buf_out (pass_loop kh ks N (Suc k) (prepare N st)) = buf_in (pass_loop kh ks N k (prepare N st))"
  "keybuf (pass_loop kh ks N (Suc k) (prepare N st)) (buf_in (pass_loop kh ks N k (prepare N st)))
       = keybuf (pass_loop kh ks N k (prepare N st)) (buf_in (pass_loop kh ks N k (prepare N st)))"
proof -
  let ?S = "pass_loop kh ks N k (prepare N st)"
  have "sized N ?S"
    by (simp add: sized_pass_loop sized_prepare)
  then show ne: "buf_in ?S \<noteq> buf_out ?S"
    by (simp add: sized_def)
  then show "keybuf (pass_loop kh ks N (Suc k) (prepare N st)) (buf_in ?S) = keybuf ?S (buf_in ?S)"
    by (simp add: pass_loop_Suc radix_pass_source)
qed (simp_all add: pass_loop_Suc radix_pass_fields pass_state_def at_scatter_fields)

text \<open>The scatter kernel of every odd pass is given the read-only buffer to write to.\<close>

lemma odd_pass_destination:
  "buf_out (pass_state kh ks N st (2 * k + 1)) = MemA"
  "flags (pass_state kh ks N st (2 * k + 1)) MemA = CL_MEM_READ_ONLY"
  "buf_in (pass_loop kh ks N PASSES (prepare N st)) = MemA"
proof -
  have "sized N (pass_state kh ks N st (2 * k + 1))"
    by (rule sized_pass_state)
  then show "flags (pass_state kh ks N st (2 * k + 1)) MemA = CL_MEM_READ_ONLY"
    by (simp add: sized_def)
qed (simp_all add: pass_state_def at_scatter_fields pass_loop_handles prepare_fields PASSES_eq)

text \<open>
  On a device that discards kernel writes to a read-only buffer, the buffer created from
  the input holds the input throughout, whatever the kernels are.
\<close>

lemma enforcing_keeps:
  assumes "sized N st" and "read_only_write st = enforcing"
  shows "keybuf (pass_loop kh ks N k st) MemA = keybuf st MemA"
proof (induction k)
  case 0
  show ?case by (simp add: pass_loop_0)
next
  case (Suc k)
  let ?S = "pass_loop kh ks N k st"
  have sz: "sized N ?S"
    using assms(1) by (rule sized_pass_loop)
  then have fl: "flags ?S MemA = CL_MEM_READ_ONLY" and ne: "buf_in ?S \<noteq> buf_out ?S"
    by (simp_all add: sized_def)
  have dev: "read_only_write ?S = enforcing"
    by (simp add: pass_loop_fields assms(2))
  have "keybuf (radix_pass kh ks N k ?S) MemA = keybuf ?S MemA"
  proof (cases "buf_out ?S = MemA")
    case True
    with fl dev radix_pass_discarded [of ?S kh ks N k] show ?thesis
      by simp
  next
    case False
    then show ?thesis
      by (simp add: radix_pass_keybuf)
  qed
  with Suc show ?case
    by (simp add: pass_loop_Suc)
qed

lemma enforcing_out:
  assumes "read_only_write st = enforcing"
  shows "out_vec (final_state kh ks N st) = resize (unat N) (in_vec st)"
proof -
  have "read_only_write (prepare N st) = enforcing"
    by (simp add: prepare_fields assms)
  with sized_prepare have "keybuf (pass_loop kh ks N PASSES (prepare N st)) MemA
      = keybuf (prepare N st) MemA"
    by (rule enforcing_keeps)
  then show ?thesis
    by (simp add: out_vec_final odd_pass_destination prepare_fields)
qed

lemma sort_5331: "sort [5, 3, 3, 1 :: key] = [1, 3, 3, 5]"
  by code_simp

lemma sort_21: "sort [2, 1 :: key] = [1, 2]"
  by code_simp

subsection \<open>Frame and verification\<close>





subsection \<open>Word sizes and the empty input\<close>

lemma unat_sum_mod:
  fixes f :: "'b \<Rightarrow> 'a::len word"
  shows "unat (\<Sum>i\<in>A. f i) = (\<Sum>i\<in>A. unat (f i)) mod 2 ^ LENGTH('a)"
proof -
  have "(\<Sum>i\<in>A. f i) = of_nat (\<Sum>i\<in>A. unat (f i))"
    by simp
  then show ?thesis
    by (simp only: unat_of_nat)
qed

lemma unat_kernel_arg_N: "unat (kernel_arg_N N) = unat N mod 2 ^ 32"
  by (simp add: kernel_arg_N_def unsigned_ucast_eq take_bit_eq_mod)

lemma kernel_arg_N_word: "kernel_arg_N N = of_nat (unat N mod 2 ^ 32)"
proof -
  have "kernel_arg_N N = of_nat (unat (kernel_arg_N N))"
    by simp
  then show ?thesis
    by (simp only: unat_kernel_arg_N)
qed

lemma kernel_arg_N_exact: "unat (kernel_arg_N N) = unat N \<longleftrightarrow> unat N < 2 ^ 32"
  by (simp add: unat_kernel_arg_N mod_eq_self_iff_div_eq_0 div_eq_0_iff)

text \<open>
  Claim C10 (32-bit quantities). Both kernels receive the low 32 bits of \<open>N\<close>, that is
  \<open>N\<close> modulo \<open>2\<^sup>3\<^sup>2\<close>, which is \<open>N\<close> itself exactly when \<open>N < 2\<^sup>3\<^sup>2\<close>; and in every
  pass the bucket totals, the global prefixes and the group offsets are the sums of the
  32-bit histogram counts taken modulo \<open>2\<^sup>3\<^sup>2\<close>. Both kernels are arbitrary. What the
  scatter kernel computes from its arguments is what the destination buffer holds after
  the pass, unless that buffer is the read-only one: there it is what the device makes of
  the same write.
\<close>
theorem thirty_two_bit_quantities:
  assumes "g < unat (NUM_GROUPS N)" and "d < RADIX"
  shows "unat (kernel_arg_N N) = unat N mod 2 ^ 32
    \<and> (unat (kernel_arg_N N) = unat N \<longleftrightarrow> unat N < 2 ^ 32)
    \<and> gh (pass_state kh ks N st p) =
        kernel_store (replicate (unat (NUM_GROUPS N) * RADIX) 0)
          (kh (keybuf (pass_state kh ks N st p) (buf_in (pass_state kh ks N st p)))
              (replicate (unat (NUM_GROUPS N) * RADIX) 0)
              (of_nat (unat N mod 2 ^ 32)) (shift_of p) (unat (NUM_GROUPS N)))
    \<and> keybuf (pass_loop kh ks N (Suc p) (prepare N st)) (buf_out (pass_state kh ks N st p)) =
        (if flags (pass_state kh ks N st p) (buf_out (pass_state kh ks N st p)) = CL_MEM_READ_ONLY
         then kernel_store (keybuf (pass_state kh ks N st p) (buf_out (pass_state kh ks N st p)))
           (read_only_write (pass_state kh ks N st p)
             (keybuf (pass_state kh ks N st p) (buf_out (pass_state kh ks N st p)))
             (kernel_store (keybuf (pass_state kh ks N st p) (buf_out (pass_state kh ks N st p)))
               (ks (keybuf (pass_state kh ks N st p) (buf_in (pass_state kh ks N st p)))
                   (keybuf (pass_state kh ks N st p) (buf_out (pass_state kh ks N st p)))
                   (buf_pg (pass_state kh ks N st p)) (buf_go (pass_state kh ks N st p))
                   (of_nat (unat N mod 2 ^ 32)) (shift_of p) (unat (NUM_GROUPS N)))))
         else kernel_store (keybuf (pass_state kh ks N st p) (buf_out (pass_state kh ks N st p)))
           (ks (keybuf (pass_state kh ks N st p) (buf_in (pass_state kh ks N st p)))
               (keybuf (pass_state kh ks N st p) (buf_out (pass_state kh ks N st p)))
               (buf_pg (pass_state kh ks N st p)) (buf_go (pass_state kh ks N st p))
               (of_nat (unat N mod 2 ^ 32)) (shift_of p) (unat (NUM_GROUPS N))))
    \<and> unat (bt (pass_state kh ks N st p) ! d) =
        (\<Sum>e<unat (NUM_GROUPS N). unat (gh (pass_state kh ks N st p) ! (e * RADIX + d))) mod 2 ^ 32
    \<and> unat (pg (pass_state kh ks N st p) ! d) =
        (\<Sum>e<d. unat (bt (pass_state kh ks N st p) ! e)) mod 2 ^ 32
    \<and> unat (go (pass_state kh ks N st p) ! (g * RADIX + d)) =
        (\<Sum>e<g. unat (gh (pass_state kh ks N st p) ! (e * RADIX + d))) mod 2 ^ 32"
proof -
  let ?S = "pass_loop kh ks N p (prepare N st)"
  let ?T = "pass_state kh ks N st p"
  let ?new = "kernel_store (keybuf ?T (buf_out ?T))
          (ks (keybuf ?T (buf_in ?T)) (keybuf ?T (buf_out ?T)) (buf_pg ?T) (buf_go ?T)
              (of_nat (unat N mod 2 ^ 32)) (shift_of p) (unat (NUM_GROUPS N)))"
  have T: "?T = at_scatter kh N p ?S"
    by (simp add: pass_state_def)
  have sz: "sized N ?S"
    by (simp add: sized_pass_loop sized_prepare)
  then have z: "zero ?S = replicate (unat (NUM_GROUPS N) * RADIX) 0"
    and lens: "length (bt ?S) = RADIX" "length (pg ?S) = RADIX"
      "unat (NUM_GROUPS N) * RADIX \<le> length (go ?S)"
    by (simp_all add: sized_def)
  have c3: "gh ?T = kernel_store (replicate (unat (NUM_GROUPS N) * RADIX) 0)
          (kh (keybuf ?T (buf_in ?T)) (replicate (unat (NUM_GROUPS N) * RADIX) 0)
              (of_nat (unat N mod 2 ^ 32)) (shift_of p) (unat (NUM_GROUPS N)))"
    unfolding T by (simp add: at_scatter_gh [OF sz] z at_scatter_fields kernel_arg_N_word)
  have c4: "keybuf (pass_loop kh ks N (Suc p) (prepare N st)) (buf_out ?T) =
        (if flags ?T (buf_out ?T) = CL_MEM_READ_ONLY
         then kernel_store (keybuf ?T (buf_out ?T))
                (read_only_write ?T (keybuf ?T (buf_out ?T)) ?new)
         else ?new)"
    unfolding T
    by (simp add: pass_loop_Suc radix_pass_keybuf at_scatter_fields kernel_arg_N_word)
  have c5: "unat (bt ?T ! d) =
      (\<Sum>e<unat (NUM_GROUPS N). unat (gh ?T ! (e * RADIX + d))) mod 2 ^ 32"
    unfolding T using assms lens
    by (simp add: at_scatter_offsets nth_bucket_totals unat_sum_mod)
  have c6: "unat (pg ?T ! d) = (\<Sum>e<d. unat (bt ?T ! e)) mod 2 ^ 32"
    unfolding T using assms lens
    by (simp add: at_scatter_offsets nth_global_prefix unat_sum_mod)
  have c7: "unat (go ?T ! (g * RADIX + d)) =
      (\<Sum>e<g. unat (gh ?T ! (e * RADIX + d))) mod 2 ^ 32"
    unfolding T using assms lens
    by (simp add: at_scatter_offsets nth_group_offsets unat_sum_mod)
  from c3 c4 c5 c6 c7 show ?thesis
    by (simp only: unat_kernel_arg_N kernel_arg_N_exact [unfolded unat_kernel_arg_N] simp_thms)
qed

theorem thirty_two_bit_quantities_witness:
  "1 < unat (NUM_GROUPS 300) \<and> 5 < RADIX \<and> unat (kernel_arg_N 300) = 300 mod 2 ^ 32"
  using thirty_two_bit_quantities [of 1 300 5 build_group_histogram scatter_stable
      "first_call enforcing (replicate 300 7) [] []" 0]
  by (simp add: NUM_GROUPS_300 RADIX_eq)



subsection \<open>Counting sort: positions, permutation, order\<close>

lemma length_filter_upt: "length (filter P [a..<b]) = card {j. a \<le> j \<and> j < b \<and> P j}"
proof -
  have "length (filter P [a..<b]) = card (set (filter P [a..<b]))"
    by (rule distinct_card [symmetric]) simp
  also have "set (filter P [a..<b]) = {j. a \<le> j \<and> j < b \<and> P j}"
    by auto
  finally show ?thesis .
qed

lemma stable_pos_card:
  assumes "i < n"
  shows "stable_pos f n i = card {j. j < n \<and> (f j < f i \<or> (f j = f i \<and> j < i))}"
proof -
  let ?A = "{j. j < n \<and> f j < f i}"
  let ?B = "{j. j < i \<and> f j = f i}"
  have "stable_pos f n i = card ?A + card ?B"
    by (simp add: stable_pos_def length_filter_upt)
  also have "\<dots> = card (?A \<union> ?B)"
    by (rule card_Un_disjoint [symmetric]) auto
  also have "?A \<union> ?B = {j. j < n \<and> (f j < f i \<or> (f j = f i \<and> j < i))}"
    using assms by auto
  finally show ?thesis .
qed

lemma stable_pos_less:
  assumes "i < n" and "k < n" and "f i < f k \<or> (f i = f k \<and> i < k)"
  shows "stable_pos f n i < stable_pos f n k"
proof -
  let ?T = "\<lambda>i. {j. j < n \<and> (f j < f i \<or> (f j = f i \<and> j < i))}"
  have fin: "finite (?T k)" by simp
  have "insert i (?T i) \<subseteq> ?T k"
    using assms by auto
  then have "card (insert i (?T i)) \<le> card (?T k)"
    using fin by (rule card_mono [rotated])
  moreover have "card (insert i (?T i)) = Suc (card (?T i))"
    by (rule card_insert_disjoint) auto
  ultimately show ?thesis
    using assms by (simp add: stable_pos_card)
qed

lemma stable_pos_bound:
  assumes "i < n"
  shows "stable_pos f n i < n"
proof -
  let ?T = "{j. j < n \<and> (f j < f i \<or> (f j = f i \<and> j < i))}"
  have "insert i ?T \<subseteq> {..<n}"
    using assms by auto
  then have "card (insert i ?T) \<le> card {..<n}"
    by (intro card_mono) simp_all
  moreover have "card (insert i ?T) = Suc (card ?T)"
    by (rule card_insert_disjoint) auto
  ultimately show ?thesis
    using assms by (simp add: stable_pos_card)
qed

lemma stable_pos_order:
  assumes "i < n" and "k < n" and "stable_pos f n i < stable_pos f n k"
  shows "f i < f k \<or> (f i = f k \<and> i < k)"
proof (rule ccontr)
  assume "\<not> ?thesis"
  then have "i = k \<or> (f k < f i \<or> (f k = f i \<and> k < i))"
    by auto
  then show False
  proof
    assume "i = k"
    with assms show False by simp
  next
    assume "f k < f i \<or> (f k = f i \<and> k < i)"
    with assms(1,2) have "stable_pos f n k < stable_pos f n i"
      by (intro stable_pos_less)
    with assms show False by simp
  qed
qed

lemma stable_pos_inj: "inj_on (stable_pos f n) {..<n}"
proof (rule inj_onI)
  fix i k
  assume a: "i \<in> {..<n}" "k \<in> {..<n}" "stable_pos f n i = stable_pos f n k"
  show "i = k"
  proof (rule ccontr)
    assume "i \<noteq> k"
    then have "(f i < f k \<or> (f i = f k \<and> i < k)) \<or> (f k < f i \<or> (f k = f i \<and> k < i))"
      by auto
    then have "stable_pos f n i < stable_pos f n k \<or> stable_pos f n k < stable_pos f n i"
      using a stable_pos_less [of i n k f] stable_pos_less [of k n i f] by auto
    with a show False by simp
  qed
qed

lemma stable_pos_bij: "bij_betw (stable_pos f n) {..<n} {..<n}"
proof -
  have "stable_pos f n ` {..<n} \<subseteq> {..<n}"
    by (auto simp: stable_pos_bound)
  then have "stable_pos f n ` {..<n} = {..<n}"
    using stable_pos_inj by (intro endo_inj_surj) simp_all
  with stable_pos_inj show ?thesis
    by (simp add: bij_betw_def)
qed

lemma length_fold_place: "length (fold (\<lambda>i dst. dst[p i := v i]) is dst) = length dst"
  by (induction "is" arbitrary: dst) simp_all

lemma fold_place_nth:
  assumes "inj_on p {..<n}" and "\<And>i. i < n \<Longrightarrow> p i < length dst" and "i < n"
  shows "fold (\<lambda>i dst. dst[p i := v i]) [0..<n] dst ! p i = v i"
  using assms
proof (induction n)
  case 0
  then show ?case by simp
next
  case (Suc n)
  let ?D = "fold (\<lambda>i dst. dst[p i := v i]) [0..<n] dst"
  have len: "length ?D = length dst"
    by (rule length_fold_place)
  show ?case
  proof (cases "i = n")
    case True
    with Suc.prems(2) [of n] len show ?thesis by simp
  next
    case False
    with Suc.prems have i: "i < n" by simp
    have "inj_on p {..<n}"
      using Suc.prems(1) by (rule inj_on_subset) auto
    then have "?D ! p i = v i"
      using Suc.prems(2) i by (intro Suc.IH) simp_all
    moreover have "p n \<noteq> p i"
      using inj_onD [OF Suc.prems(1), of n i] i by auto
    ultimately show ?thesis by simp
  qed
qed

lemma mset_permuted:
  assumes "bij_betw p {..<n} {..<n}" and "length ys = n" and "length xs = n"
    and "\<And>i. i < n \<Longrightarrow> ys ! p i = xs ! i"
  shows "mset ys = mset xs"
proof -
  have "mset ys = image_mset ((!) ys) (mset_set {0..<n})"
    using assms(2) by (metis map_nth mset_map mset_upt)
  also have "mset_set {0..<n} = image_mset p (mset_set {0..<n})"
    using assms(1) by (simp add: image_mset_mset_set bij_betw_def lessThan_atLeast0)
  also have "image_mset ((!) ys) (image_mset p (mset_set {0..<n}))
      = image_mset ((!) xs) (mset_set {0..<n})"
    using assms(4) by (auto simp: multiset.map_comp intro!: image_mset_cong)
  also have "\<dots> = mset xs"
    using assms(3) by (metis map_nth mset_map mset_upt)
  finally show ?thesis .
qed

lemma count_groups:
  "(\<Sum>e<g. length (filter P [e * L ..< min n ((e + 1) * L)])) = length (filter P [0..<min n (g * L)])"
proof (induction g)
  case 0
  then show ?case by simp
next
  case (Suc g)
  let ?A = "{j. 0 \<le> j \<and> j < min n (g * L) \<and> P j}"
  let ?B = "{j. g * L \<le> j \<and> j < min n ((g + 1) * L) \<and> P j}"
  have "card ?A + card ?B = card (?A \<union> ?B)"
    by (rule card_Un_disjoint [symmetric]) auto
  also have "?A \<union> ?B = {j. 0 \<le> j \<and> j < min n (Suc g * L) \<and> P j}"
    by auto
  finally show ?case
    using Suc by (simp add: length_filter_upt)
qed

lemma count_below:
  fixes d :: nat
  shows "(\<Sum>e<d. length (filter (\<lambda>j. f j = e) [a..<b])) = length (filter (\<lambda>j. f j < d) [a..<b])"
proof (induction d)
  case 0
  then show ?case by simp
next
  case (Suc d)
  let ?A = "{j. a \<le> j \<and> j < b \<and> f j < d}"
  let ?B = "{j. a \<le> j \<and> j < b \<and> f j = d}"
  have "card ?A + card ?B = card (?A \<union> ?B)"
    by (rule card_Un_disjoint [symmetric]) auto
  also have "?A \<union> ?B = {j. a \<le> j \<and> j < b \<and> f j < Suc d}"
    by auto
  finally show ?case
    using Suc by (simp add: length_filter_upt)
qed

lemma count_split:
  assumes "a \<le> i"
  shows "length (filter P [0..<a]) + length (filter P [a..<i]) = length (filter P [0..<i])"
proof -
  let ?A = "{j. 0 \<le> j \<and> j < a \<and> P j}"
  let ?B = "{j. a \<le> j \<and> j < i \<and> P j}"
  have "card ?A + card ?B = card (?A \<union> ?B)"
    by (rule card_Un_disjoint [symmetric]) auto
  also have "?A \<union> ?B = {j. 0 \<le> j \<and> j < i \<and> P j}"
    using assms by auto
  finally show ?thesis
    by (simp add: length_filter_upt)
qed

text \<open>The three summands of the destination index add up to the stable position.\<close>

lemma offsets_stable_pos:
  assumes "i < n" and "0 < L" and "n \<le> G * L"
  shows "(\<Sum>e<f i. \<Sum>e'<G. length (filter (\<lambda>j. f j = e) [e' * L ..< min n ((e' + 1) * L)]))
       + (\<Sum>e'<i div L. length (filter (\<lambda>j. f j = f i) [e' * L ..< min n ((e' + 1) * L)]))
       + length (filter (\<lambda>j. f j = f i) [i div L * L ..< i])
       = stable_pos f n i"
proof -
  have low: "i div L * L \<le> i"
    by simp
  have "i div L * L \<le> n"
    by (rule order_trans [OF low]) (use assms in simp)
  with assms have m: "min n (i div L * L) = i div L * L" "min n (G * L) = n"
    by (simp_all add: min_absorb2 min_absorb1)
  have "(\<Sum>e<f i. \<Sum>e'<G. length (filter (\<lambda>j. f j = e) [e' * L ..< min n ((e' + 1) * L)]))
      = length (filter (\<lambda>j. f j < f i) [0..<n])"
    by (simp only: count_groups m count_below)
  moreover have "(\<Sum>e'<i div L. length (filter (\<lambda>j. f j = f i) [e' * L ..< min n ((e' + 1) * L)]))
       + length (filter (\<lambda>j. f j = f i) [i div L * L ..< i])
      = length (filter (\<lambda>j. f j = f i) [0..<i])"
    by (simp only: count_groups m count_split [OF low])
  ultimately show ?thesis
    by (simp add: stable_pos_def)
qed

lemma lsd_step:
  fixes lo hi t :: "'a \<Rightarrow> nat"
  assumes len: "length xs = n" "length ys = n"
    and place: "\<And>i. i < n \<Longrightarrow> ys ! stable_pos (\<lambda>j. hi (xs ! j)) n i = xs ! i"
    and srt: "sorted (map lo xs)"
    and M1: "\<And>a b. hi a < hi b \<Longrightarrow> t a \<le> t b"
    and M2: "\<And>a b. hi a = hi b \<Longrightarrow> lo a \<le> lo b \<Longrightarrow> t a \<le> t b"
  shows "sorted (map t ys)"
proof -
  have "t (ys ! a) \<le> t (ys ! b)" if ab: "a < b" "b < length ys" for a b
  proof -
  let ?p = "stable_pos (\<lambda>j. hi (xs ! j)) n"
  have "bij_betw ?p {..<n} {..<n}"
    by (rule stable_pos_bij)
  then have surj: "?p ` {..<n} = {..<n}"
    by (simp add: bij_betw_def)
  from ab len have "a \<in> {..<n}" "b \<in> {..<n}"
    by simp_all
  with surj obtain i k where ik: "i < n" "k < n" "?p i = a" "?p k = b"
    by (metis (no_types, lifting) imageE lessThan_iff)
  with ab have "?p i < ?p k"
    by simp
  with ik have ord: "hi (xs ! i) < hi (xs ! k) \<or> (hi (xs ! i) = hi (xs ! k) \<and> i < k)"
    using stable_pos_order [of i n k "\<lambda>j. hi (xs ! j)"] by simp
  have "t (xs ! i) \<le> t (xs ! k)"
  proof (cases "hi (xs ! i) < hi (xs ! k)")
    case True
    then show ?thesis by (rule M1)
  next
    case False
    with ord have eq: "hi (xs ! i) = hi (xs ! k)" and lt: "i < k"
      by simp_all
    from srt lt ik len have "lo (xs ! i) \<le> lo (xs ! k)"
      by (simp add: sorted_map sorted_wrt_iff_nth_less)
    with eq show ?thesis by (rule M2)
  qed
  with ik place [of i] place [of k] show "t (ys ! a) \<le> t (ys ! b)"
    by simp
  qed
  then show ?thesis
    by (simp add: sorted_map sorted_wrt_iff_nth_less)
qed

lemma window_less:
  fixes a b :: nat
  assumes "a div 2 ^ s mod 256 < b div 2 ^ s mod 256"
  shows "a mod 2 ^ (s + 8) \<le> b mod 2 ^ (s + 8)"
proof -
  let ?da = "a div 2 ^ s mod 256" and ?db = "b div 2 ^ s mod 256"
  have a: "a mod 2 ^ (s + 8) = 2 ^ s * ?da + a mod 2 ^ s"
    by (simp add: power_add mod_mult2_eq)
  have b: "b mod 2 ^ (s + 8) = 2 ^ s * ?db + b mod 2 ^ s"
    by (simp add: power_add mod_mult2_eq)
  have "a mod 2 ^ s < (2::nat) ^ s"
    by simp
  then have "2 ^ s * ?da + a mod 2 ^ s < 2 ^ s * Suc ?da"
    by simp
  also from assms have "Suc ?da \<le> ?db"
    by simp
  then have "(2::nat) ^ s * Suc ?da \<le> 2 ^ s * ?db"
    by (rule mult_le_mono2)
  finally show ?thesis
    unfolding a b by simp
qed

lemma window_equal:
  fixes a b :: nat
  assumes "a div 2 ^ s mod 256 = b div 2 ^ s mod 256" and "a mod 2 ^ s \<le> b mod 2 ^ s"
  shows "a mod 2 ^ (s + 8) \<le> b mod 2 ^ (s + 8)"
proof -
  have "a mod 2 ^ (s + 8) = 2 ^ s * (a div 2 ^ s mod 256) + a mod 2 ^ s"
    by (simp add: power_add mod_mult2_eq)
  moreover have "b mod 2 ^ (s + 8) = 2 ^ s * (b div 2 ^ s mod 256) + b mod 2 ^ s"
    by (simp add: power_add mod_mult2_eq)
  ultimately show ?thesis
    using assms by simp
qed

subsection \<open>The modelled stages on a valid run\<close>

lemma LOCAL_SZ_eq: "LOCAL_SZ = 256"
  by (simp add: LOCAL_SZ_def)

lemma digit_nat: "digit sh k = unat k div 2 ^ unat sh mod 256"
proof -
  have "digit sh k = take_bit 8 (drop_bit (unat sh) (unat k))"
    by (simp only: digit_def BITS_def unsigned_take_bit_eq unat_drop_bit_eq)
  then show ?thesis
    by (simp add: take_bit_eq_mod drop_bit_eq_div)
qed

lemma digit_less: "digit sh k < RADIX"
  by (simp add: digit_nat RADIX_eq)

lemma unat_NUM_GROUPS:
  assumes "unat N < 2 ^ 32"
  shows "unat (NUM_GROUPS N) = (unat N + 255) div 256"
proof -
  have "unat N + unat (255 :: u64) < 2 ^ LENGTH(64)"
    using assms by simp
  then have "unat (N + 255) = unat N + unat (255 :: u64)"
    by (simp only: unat_add_lem)
  then have "unat (N + 255) div unat (256 :: u64) = (unat N + 255) div 256"
    by simp
  moreover have "NUM_GROUPS N = (N + 255) div 256"
    by (simp add: NUM_GROUPS_def LOCAL_SZ_eq add.commute)
  ultimately show ?thesis
    by (simp only: unat_div)
qed

lemma round_up_covers: "(n::nat) \<le> (n + 255) div 256 * 256"
proof -
  have "(n + 255) div 256 * 256 = (n + 255) - (n + 255) mod 256"
    by (simp add: minus_mod_eq_div_mult)
  moreover have "(n + 255) mod 256 < 256"
    by simp
  ultimately show ?thesis
    by linarith
qed

lemma groups_cover:
  assumes "unat N < 2 ^ 32"
  shows "unat N \<le> unat (NUM_GROUPS N) * LOCAL_SZ"
  unfolding unat_NUM_GROUPS [OF assms] LOCAL_SZ_eq by (rule round_up_covers)

lemma unat_shift_of:
  assumes "p < PASSES"
  shows "unat (shift_of p) = 8 * p"
proof -
  have "unat (shift_of p) = (p * 8) mod 2 ^ LENGTH(32)"
    unfolding shift_of_def BITS_def by (rule unat_of_nat)
  with assms show ?thesis
    by (simp add: PASSES_eq)
qed

text \<open>What the host holds after the histogram stage of the model has run.\<close>

lemma hist_gh:
  assumes sz: "sized N st" and n: "unat N < 2 ^ 32"
    and e: "e < unat (NUM_GROUPS N)" and d: "d < RADIX"
  shows "gh (at_scatter build_group_histogram N p st) ! (e * RADIX + d)
    = of_nat (group_count (keybuf st (buf_in st)) (unat N) (shift_of p) e d)"
proof -
  let ?G = "unat (NUM_GROUPS N)"
  let ?h = "build_group_histogram (keybuf st (buf_in st)) (zero st) (kernel_arg_N N)
      (shift_of p) ?G"
  have len: "length ?h = length (zero st)"
    using sz by (simp add: build_group_histogram_def sized_def)
  have idx: "e * RADIX + d < ?G * RADIX"
  proof -
    have "e * RADIX + d < Suc e * RADIX"
      using d by simp
    also have "\<dots> \<le> ?G * RADIX"
      using e by (intro mult_le_mono1) simp
    finally show ?thesis .
  qed
  have arg: "unat (kernel_arg_N N) = unat N"
    using n by (simp add: kernel_arg_N_exact)
  have cleared: "zero st ! (e * RADIX + d) = 0"
    using sz idx by (simp add: sized_def)
  have "gh (at_scatter build_group_histogram N p st) = ?h"
    by (simp add: at_scatter_gh [OF sz] kernel_store_same [OF len])
  moreover have "?h ! (e * RADIX + d)
      = of_nat (group_count (keybuf st (buf_in st)) (unat N) (shift_of p) e d)"
    using idx d by (simp add: build_group_histogram_def arg cleared)
  ultimately show ?thesis
    by simp
qed

lemma hist_bt:
  assumes sz: "sized N st" and n: "unat N < 2 ^ 32" and d: "d < RADIX"
  shows "bt (at_scatter build_group_histogram N p st) ! d
    = (\<Sum>e<unat (NUM_GROUPS N).
         of_nat (group_count (keybuf st (buf_in st)) (unat N) (shift_of p) e d))"
proof -
  let ?s = "at_scatter build_group_histogram N p st"
  have "length (bt st) = RADIX"
    using sz by (simp add: sized_def)
  with d have "bt ?s ! d = (\<Sum>e<unat (NUM_GROUPS N). gh ?s ! (e * RADIX + d))"
    by (simp add: at_scatter_offsets nth_bucket_totals)
  also have "\<dots> = (\<Sum>e<unat (NUM_GROUPS N).
      of_nat (group_count (keybuf st (buf_in st)) (unat N) (shift_of p) e d))"
  proof (rule sum.cong)
    fix e
    assume "e \<in> {..<unat (NUM_GROUPS N)}"
    then have "e < unat (NUM_GROUPS N)" by simp
    with sz n show "gh ?s ! (e * RADIX + d)
        = of_nat (group_count (keybuf st (buf_in st)) (unat N) (shift_of p) e d)"
      using d by (rule hist_gh)
  qed (rule refl)
  finally show ?thesis .
qed

lemma hist_pg:
  assumes sz: "sized N st" and n: "unat N < 2 ^ 32" and d: "d < RADIX"
  shows "pg (at_scatter build_group_histogram N p st) ! d
    = (\<Sum>c<d. \<Sum>e<unat (NUM_GROUPS N).
         of_nat (group_count (keybuf st (buf_in st)) (unat N) (shift_of p) e c))"
proof -
  let ?s = "at_scatter build_group_histogram N p st"
  have "RADIX \<le> length (pg st)"
    using sz by (simp add: sized_def)
  then have "global_prefix (bt ?s) (pg st) ! d = (\<Sum>c<d. bt ?s ! c)"
    using d by (rule nth_global_prefix)
  then have "pg ?s ! d = (\<Sum>c<d. bt ?s ! c)"
    by (simp only: at_scatter_offsets(2))
  also have "\<dots> = (\<Sum>c<d. \<Sum>e<unat (NUM_GROUPS N).
      of_nat (group_count (keybuf st (buf_in st)) (unat N) (shift_of p) e c))"
  proof (rule sum.cong)
    fix c
    assume "c \<in> {..<d}"
    with d have "c < RADIX" by simp
    with sz n show "bt ?s ! c = (\<Sum>e<unat (NUM_GROUPS N).
        of_nat (group_count (keybuf st (buf_in st)) (unat N) (shift_of p) e c))"
      by (rule hist_bt)
  qed (rule refl)
  finally show ?thesis .
qed

lemma hist_go:
  assumes sz: "sized N st" and n: "unat N < 2 ^ 32" and d: "d < RADIX"
    and g: "g < unat (NUM_GROUPS N)"
  shows "go (at_scatter build_group_histogram N p st) ! (g * RADIX + d)
    = (\<Sum>e<g. of_nat (group_count (keybuf st (buf_in st)) (unat N) (shift_of p) e d))"
proof -
  let ?s = "at_scatter build_group_histogram N p st"
  have "unat (NUM_GROUPS N) * RADIX \<le> length (go st)"
    using sz by (simp add: sized_def)
  then have "group_offsets (gh ?s) (unat (NUM_GROUPS N)) (go st) ! (g * RADIX + d)
      = (\<Sum>e<g. gh ?s ! (e * RADIX + d))"
    using g d by (rule nth_group_offsets)
  then have "go ?s ! (g * RADIX + d) = (\<Sum>e<g. gh ?s ! (e * RADIX + d))"
    by (simp only: at_scatter_offsets(3))
  also have "\<dots> = (\<Sum>e<g.
      of_nat (group_count (keybuf st (buf_in st)) (unat N) (shift_of p) e d))"
  proof (rule sum.cong)
    fix e
    assume "e \<in> {..<g}"
    with g have "e < unat (NUM_GROUPS N)" by simp
    with sz n show "gh ?s ! (e * RADIX + d)
        = of_nat (group_count (keybuf st (buf_in st)) (unat N) (shift_of p) e d)"
      using d by (rule hist_gh)
  qed (rule refl)
  finally show ?thesis .
qed

lemma unat_of_nat_small:
  assumes "a < 2 ^ 32"
  shows "unat (of_nat a :: u32) = a"
proof -
  have "unat (of_nat a :: u32) = a mod 2 ^ LENGTH(32)"
    by (rule unat_of_nat)
  with assms show ?thesis by simp
qed

text \<open>On a valid run the destination index of the model is the stable position.\<close>

lemma scatter_index_stable:
  assumes sz: "sized N st" and n: "unat N < 2 ^ 32" and i: "i < unat N"
  shows "scatter_index (keybuf st (buf_in st))
           (buf_pg (at_scatter build_group_histogram N p st))
           (buf_go (at_scatter build_group_histogram N p st)) (shift_of p) i
    = stable_pos (\<lambda>j. digit (shift_of p) (keybuf st (buf_in st) ! j)) (unat N) i"
proof -
  let ?s = "at_scatter build_group_histogram N p st"
  let ?src = "keybuf st (buf_in st)"
  let ?f = "\<lambda>j. digit (shift_of p) (?src ! j)"
  let ?G = "unat (NUM_GROUPS N)"
  let ?gc = "group_count ?src (unat N) (shift_of p)"
  let ?A = "\<Sum>c<?f i. \<Sum>e<?G. ?gc e c"
  let ?B = "\<Sum>e<i div LOCAL_SZ. ?gc e (?f i)"
  let ?C = "rank ?src (shift_of p) i"
  have d: "?f i < RADIX"
    by (rule digit_less)
  have cover: "unat N \<le> ?G * LOCAL_SZ"
    using n by (rule groups_cover)
  with i have "i < ?G * LOCAL_SZ"
    by simp
  then have g: "i div LOCAL_SZ < ?G"
    by (rule less_mult_imp_div_less)
  have total: "?A + ?B + ?C = stable_pos ?f (unat N) i"
    unfolding group_count_def group_members_def rank_def
    using i _ cover by (rule offsets_stable_pos) (simp add: LOCAL_SZ_eq)
  also have "\<dots> < unat N"
    using i by (rule stable_pos_bound)
  finally have small: "?A < 2 ^ 32" "?B < 2 ^ 32"
    using n by simp_all
  have "pg ?s ! ?f i = of_nat ?A"
    using hist_pg [OF sz n d, of p] by simp
  then have pg: "unat (pg ?s ! ?f i) = ?A"
    using small by (simp only: unat_of_nat_small)
  have "go ?s ! (i div LOCAL_SZ * RADIX + ?f i) = of_nat ?B"
    using hist_go [OF sz n d g, of p] by simp
  then have go: "unat (go ?s ! (i div LOCAL_SZ * RADIX + ?f i)) = ?B"
    using small by (simp only: unat_of_nat_small)
  have "scatter_index ?src (pg ?s) (go ?s) (shift_of p) i = ?A + ?B + ?C"
    unfolding scatter_index_def pg go ..
  with total show ?thesis
    by (simp only: at_scatter_device [OF sz])
qed

lemma scatter_pass:
  assumes sz: "sized N st" and n: "unat N < 2 ^ 32"
    and w: "flags st (buf_out st) = CL_MEM_READ_WRITE \<or> read_only_write st = lenient"
  shows "length (keybuf (radix_pass build_group_histogram scatter_stable N p st) (buf_out st))
      = unat N"
    and "i < unat N \<Longrightarrow>
      keybuf (radix_pass build_group_histogram scatter_stable N p st) (buf_out st)
        ! stable_pos (\<lambda>j. digit (shift_of p) (keybuf st (buf_in st) ! j)) (unat N) i
      = keybuf st (buf_in st) ! i"
proof -
  let ?s = "at_scatter build_group_histogram N p st"
  let ?src = "keybuf st (buf_in st)"
  let ?old = "keybuf st (buf_out st)"
  let ?f = "\<lambda>j. digit (shift_of p) (?src ! j)"
  let ?G = "unat (NUM_GROUPS N)"
  let ?new = "scatter_stable ?src ?old (buf_pg ?s) (buf_go ?s) (kernel_arg_N N) (shift_of p) ?G"
  let ?place = "fold (\<lambda>i dst. dst[stable_pos ?f (unat N) i := ?src ! i]) [0..<unat N] ?old"
  have len_old: "length ?old = unat N"
    using sz by (rule length_keybuf)
  have arg: "unat (kernel_arg_N N) = unat N"
    using n by (simp add: kernel_arg_N_exact)
  have "min (unat N) (?G * LOCAL_SZ) = unat N"
    using groups_cover [OF n] by simp
  then have "?new = fold (\<lambda>i dst. dst[scatter_index ?src (buf_pg ?s) (buf_go ?s) (shift_of p) i
      := ?src ! i]) [0..<unat N] ?old"
    by (simp add: scatter_stable_def arg)
  also have "\<dots> = ?place"
    by (rule fold_cong) (simp_all add: scatter_index_stable [OF sz n])
  finally have new: "?new = ?place" .
  have len_new: "length ?place = length ?old"
    by (rule length_fold_place)
  have kb: "keybuf (radix_pass build_group_histogram scatter_stable N p st) (buf_out st) = ?place"
    by (simp add: radix_pass_written [OF w] kernel_store_same [OF len_new] new)
  show "length (keybuf (radix_pass build_group_histogram scatter_stable N p st) (buf_out st))
      = unat N"
    unfolding kb by (simp add: length_fold_place len_old)
  show "keybuf (radix_pass build_group_histogram scatter_stable N p st) (buf_out st)
        ! stable_pos ?f (unat N) i = ?src ! i" if "i < unat N"
    unfolding kb
  proof (rule fold_place_nth)
    show "inj_on (stable_pos ?f (unat N)) {..<unat N}"
      by (rule stable_pos_inj)
    show "stable_pos ?f (unat N) k < length ?old" if "k < unat N" for k
      using that by (simp add: len_old stable_pos_bound)
    show "i < unat N"
      by (rule that)
  qed
qed

subsection \<open>The pass loop on a valid run\<close>

lemma digit_window:
  assumes "p < PASSES"
  shows "digit (shift_of p) x = unat x div 2 ^ (8 * p) mod 256"
  by (simp add: digit_nat unat_shift_of [OF assms])

text \<open>One pass: a permutation that refines the order by one more digit.\<close>

lemma pass_mset:
  assumes sz: "sized N st" and n: "unat N < 2 ^ 32"
    and w: "flags st (buf_out st) = CL_MEM_READ_WRITE \<or> read_only_write st = lenient"
  shows "mset (keybuf (radix_pass build_group_histogram scatter_stable N p st) (buf_out st))
    = mset (keybuf st (buf_in st))"
proof (rule mset_permuted)
  show "bij_betw (stable_pos (\<lambda>j. digit (shift_of p) (keybuf st (buf_in st) ! j)) (unat N))
      {..<unat N} {..<unat N}"
    by (rule stable_pos_bij)
  show "length (keybuf (radix_pass build_group_histogram scatter_stable N p st) (buf_out st))
      = unat N"
    using sz n w by (rule scatter_pass)
  show "length (keybuf st (buf_in st)) = unat N"
    using sz by (rule length_keybuf)
  show "keybuf (radix_pass build_group_histogram scatter_stable N p st) (buf_out st)
      ! stable_pos (\<lambda>j. digit (shift_of p) (keybuf st (buf_in st) ! j)) (unat N) i
      = keybuf st (buf_in st) ! i" if "i < unat N" for i
    using sz n w that by (rule scatter_pass)
qed

lemma pass_sorted:
  assumes sz: "sized N st" and n: "unat N < 2 ^ 32" and p: "p < PASSES"
    and w: "flags st (buf_out st) = CL_MEM_READ_WRITE \<or> read_only_write st = lenient"
    and srt: "sorted (map (\<lambda>x. unat x mod 2 ^ (8 * p)) (keybuf st (buf_in st)))"
  shows "sorted (map (\<lambda>x. unat x mod 2 ^ (8 * Suc p))
    (keybuf (radix_pass build_group_histogram scatter_stable N p st) (buf_out st)))"
proof (rule lsd_step [where hi = "digit (shift_of p)" and lo = "\<lambda>x. unat x mod 2 ^ (8 * p)"
      and xs = "keybuf st (buf_in st)" and n = "unat N"])
  show "length (keybuf st (buf_in st)) = unat N"
    using sz by (rule length_keybuf)
  show "length (keybuf (radix_pass build_group_histogram scatter_stable N p st) (buf_out st))
      = unat N"
    using sz n w by (rule scatter_pass)
  show "keybuf (radix_pass build_group_histogram scatter_stable N p st) (buf_out st)
      ! stable_pos (\<lambda>j. digit (shift_of p) (keybuf st (buf_in st) ! j)) (unat N) i
      = keybuf st (buf_in st) ! i" if "i < unat N" for i
    using sz n w that by (rule scatter_pass)
  show "sorted (map (\<lambda>x. unat x mod 2 ^ (8 * p)) (keybuf st (buf_in st)))"
    by (rule srt)
  show "unat a mod 2 ^ (8 * Suc p) \<le> unat b mod 2 ^ (8 * Suc p)"
    if "digit (shift_of p) a < digit (shift_of p) b" for a b :: key
    using that window_less [of "unat a" "8 * p" "unat b"] by (simp add: digit_window [OF p] add.commute)
  show "unat a mod 2 ^ (8 * Suc p) \<le> unat b mod 2 ^ (8 * Suc p)"
    if "digit (shift_of p) a = digit (shift_of p) b"
      and "unat a mod 2 ^ (8 * p) \<le> unat b mod 2 ^ (8 * p)" for a b :: key
    using that window_equal [of "unat a" "8 * p" "unat b"] by (simp add: digit_window [OF p] add.commute)
qed

lemma sorted_map_const: "sorted (map (\<lambda>x. c) xs)"
  by (induction xs) simp_all

lemma loop_sorted_mset:
  assumes len: "length (in_vec st) = unat N" and n: "unat N < 2 ^ 32" and k: "k \<le> PASSES"
    and dev: "read_only_write st = lenient"
  shows "mset (keybuf (pass_loop build_group_histogram scatter_stable N k (prepare N st))
             (buf_in (pass_loop build_group_histogram scatter_stable N k (prepare N st))))
           = mset (in_vec st)
    \<and> sorted (map (\<lambda>x. unat x mod 2 ^ (8 * k))
         (keybuf (pass_loop build_group_histogram scatter_stable N k (prepare N st))
             (buf_in (pass_loop build_group_histogram scatter_stable N k (prepare N st)))))"
  using k
proof (induction k)
  case 0
  show ?case
    by (simp add: pass_loop_0 prepare_fields resize_same [OF len] sorted_map_const)
next
  case (Suc k)
  let ?S = "pass_loop build_group_histogram scatter_stable N k (prepare N st)"
  have sz: "sized N ?S"
    by (simp add: sized_pass_loop sized_prepare)
  have w: "flags ?S (buf_out ?S) = CL_MEM_READ_WRITE \<or> read_only_write ?S = lenient"
    by (simp add: pass_loop_fields prepare_fields dev)
  from Suc.prems have p: "k < PASSES"
    by simp
  with Suc.IH have IH: "mset (keybuf ?S (buf_in ?S)) = mset (in_vec st)"
    "sorted (map (\<lambda>x. unat x mod 2 ^ (8 * k)) (keybuf ?S (buf_in ?S)))"
    by simp_all
  have "mset (keybuf (radix_pass build_group_histogram scatter_stable N k ?S) (buf_out ?S))
      = mset (in_vec st)"
    using pass_mset [OF sz n w, of k] IH(1) by simp
  moreover have "sorted (map (\<lambda>x. unat x mod 2 ^ (8 * Suc k))
      (keybuf (radix_pass build_group_histogram scatter_stable N k ?S) (buf_out ?S)))"
    using sz n p w IH(2) by (rule pass_sorted)
  ultimately show ?case
    by (simp only: pass_loop_Suc radix_pass_fields simp_thms)
qed

lemma sorted_unat:
  fixes xs :: "key list"
  assumes "sorted (map (\<lambda>x. unat x mod 2 ^ 64) xs)"
  shows "sorted xs"
proof -
  have "unat x mod 2 ^ 64 = unat x" for x :: key
    using unsigned_less [of x, where 'a = nat] by simp
  with assms have "sorted (map unat xs)"
    by simp
  then show ?thesis
    by (simp add: sorted_map sorted_wrt_iff_nth_less word_le_nat_alt)
qed

subsection \<open>Sorting\<close>

text \<open>
  On a device that ignores the read-only flag, with the two device stages as the spec
  describes them, a run on \<open>N\<close> keys (\<open>N < 2\<^sup>3\<^sup>2\<close>, every buffer created) ends with
  \<^verbatim>\<open>out\<close> a permutation of \<^verbatim>\<open>in\<close>, sorted, equal to the reference sort, and reports
  \<^verbatim>\<open>PASS\<close>.
\<close>

lemma radix_sort_lenient:
  assumes "length (in_vec st) = unat N" and "unat N < 2 ^ 32"
    and "buffers_created N" and "read_only_write st = lenient"
  shows "mset (out_vec (fst (run_opencl_radix build_group_histogram scatter_stable N st)))
           = mset (in_vec st)"
    and "sorted (out_vec (fst (run_opencl_radix build_group_histogram scatter_stable N st)))"
    and "out_vec (fst (run_opencl_radix build_group_histogram scatter_stable N st))
           = sort (in_vec st)"
    and "snd (run_opencl_radix build_group_histogram scatter_stable N st)
           = PASS_report
               (total_host_to_device
                 (fst (run_opencl_radix build_group_histogram scatter_stable N st)))
               (total_device_to_host
                 (fst (run_opencl_radix build_group_histogram scatter_stable N st)))"
proof -
  let ?out = "out_vec (final_state build_group_histogram scatter_stable N st)"
  have "mset ?out = mset (in_vec st) \<and> sorted (map (\<lambda>x. unat x mod 2 ^ (8 * PASSES)) ?out)"
    unfolding out_vec_final using assms(1,2) _ assms(4) by (rule loop_sorted_mset) simp
  then have perm: "mset ?out = mset (in_vec st)" and srt: "sorted ?out"
    by (simp_all add: PASSES_eq sorted_unat)
  then have ref: "sort (in_vec st) = ?out"
    by (rule properties_for_sort)
  with perm srt show
    "mset (out_vec (fst (run_opencl_radix build_group_histogram scatter_stable N st)))
       = mset (in_vec st)"
    "sorted (out_vec (fst (run_opencl_radix build_group_histogram scatter_stable N st)))"
    "out_vec (fst (run_opencl_radix build_group_histogram scatter_stable N st))
       = sort (in_vec st)"
    "snd (run_opencl_radix build_group_histogram scatter_stable N st)
       = PASS_report
           (total_host_to_device
             (fst (run_opencl_radix build_group_histogram scatter_stable N st)))
           (total_device_to_host
             (fst (run_opencl_radix build_group_histogram scatter_stable N st)))"
    by (simp_all add: run_created [OF assms(3)] verify_report_def final_state_frame)
qed

text \<open>
  Claim C1 (the output is the sorted input). \<^verbatim>\<open>buf_in\<close> is created \<^verbatim>\<open>CL_MEM_READ_ONLY\<close>
  and is the destination of the scatter kernel in every odd pass, and the buffer read
  back at the end. On the input \<open>[5, 3, 3, 1]\<close> with \<open>N = 4\<close> and the two device stages as
  the spec describes them: on a device that discards kernel writes to a read-only buffer
  the final \<^verbatim>\<open>out\<close> is the unsorted input and the run ends with \<^verbatim>\<open>Mismatch!\<close>; on a device
  that ignores the flag \<^verbatim>\<open>out\<close> is \<open>[1, 3, 3, 5]\<close> and the run reports \<^verbatim>\<open>PASS\<close>.
\<close>
theorem read_only_buffer_decides_sort:
  "out_vec (fst (run_opencl_radix build_group_histogram scatter_stable 4
                  (first_call enforcing [5, 3, 3, 1] [] []))) = [5, 3, 3, 1]
   \<and> sort (in_vec (first_call enforcing [5, 3, 3, 1] [] [])) = [1, 3, 3, 5]
   \<and> snd (run_opencl_radix build_group_histogram scatter_stable 4
            (first_call enforcing [5, 3, 3, 1] [] [])) = Mismatch_exit 1
   \<and> out_vec (fst (run_opencl_radix build_group_histogram scatter_stable 4
                  (first_call lenient [5, 3, 3, 1] [] []))) = [1, 3, 3, 5]
   \<and> snd (run_opencl_radix build_group_histogram scatter_stable 4
            (first_call lenient [5, 3, 3, 1] [] [])) = PASS_report 24576 8224"
proof -
  let ?e = "first_call enforcing [5, 3, 3, 1] [] []"
  let ?l = "first_call lenient [5, 3, 3, 1] [] []"
  let ?re = "run_opencl_radix build_group_histogram scatter_stable 4 ?e"
  let ?rl = "run_opencl_radix build_group_histogram scatter_stable 4 ?l"
  have ref: "sort (in_vec ?e) = [1, 3, 3, 5]" "sort (in_vec ?l) = [1, 3, 3, 5]"
    by (simp_all only: first_call_fields sort_5331)
  have out: "out_vec (fst ?re) = [5, 3, 3, 1]"
    by (simp add: run_created [OF buffers_created_4] enforcing_out first_call_fields resize_def)
  have "out_vec (final_state build_group_histogram scatter_stable 4 ?e)
      \<noteq> cpu (final_state build_group_histogram scatter_stable 4 ?e)"
    using out by (simp add: run_created [OF buffers_created_4] final_state_frame ref)
  then have mis: "snd ?re = Mismatch_exit 1"
    by (simp add: run_created [OF buffers_created_4] verify_report_def)
  have h: "length (in_vec ?l) = unat (4 :: u64)" "unat (4 :: u64) < 2 ^ 32"
    "buffers_created 4" "read_only_write ?l = lenient"
    by (simp_all add: first_call_fields buffers_created_4)
  have "out_vec (fst ?rl) = sort (in_vec ?l)"
    using h by (rule radix_sort_lenient)
  then have srt: "out_vec (fst ?rl) = [1, 3, 3, 5]"
    by (simp only: ref)
  have "snd ?rl = PASS_report (total_host_to_device (fst ?rl)) (total_device_to_host (fst ?rl))"
    using h by (rule radix_sort_lenient)
  then have pass: "snd ?rl = PASS_report 24576 8224"
    by (simp add: run_created [OF buffers_created_4] final_counters first_call_fields
        NUM_GROUPS_4 bytes64_def)
  from out ref(1) mis srt pass show ?thesis
    by (intro conjI)
qed

lemma not_sorted_21: "\<not> sorted [2, 1 :: key]"
  by code_simp

text \<open>
  Claim C8 (double buffering). The handles differ and swap in every pass
  (\<open>handles_swap\<close>), but the buffer that is the source after the loop is the one created
  \<^verbatim>\<open>CL_MEM_READ_ONLY\<close>, and it is the destination of the scatter kernel in every odd pass.
  On the input \<open>[2, 1]\<close> with \<open>N = 2\<close>, on a device that discards kernel writes to a
  read-only buffer and whatever the kernels are, the source buffer after the loop holds
  \<open>[2, 1]\<close>, which is not sorted, and this is what is copied out. On a device that
  ignores the flag, with the two device stages as the spec describes them, it holds
  \<open>[1, 2]\<close>.
\<close>
theorem sorted_result_not_in_source:
  "buf_out (pass_state kh ks 2 (first_call enforcing [2, 1] [] []) (2 * k + 1)) = MemA
   \<and> flags (pass_state kh ks 2 (first_call enforcing [2, 1] [] []) (2 * k + 1)) MemA
       = CL_MEM_READ_ONLY
   \<and> buf_in (pass_loop kh ks 2 PASSES (prepare 2 (first_call enforcing [2, 1] [] []))) = MemA
   \<and> keybuf (pass_loop kh ks 2 PASSES (prepare 2 (first_call enforcing [2, 1] [] [])))
       (buf_in (pass_loop kh ks 2 PASSES (prepare 2 (first_call enforcing [2, 1] [] []))))
       = [2, 1]
   \<and> \<not> sorted (keybuf (pass_loop kh ks 2 PASSES (prepare 2 (first_call enforcing [2, 1] [] [])))
       (buf_in (pass_loop kh ks 2 PASSES (prepare 2 (first_call enforcing [2, 1] [] [])))))
   \<and> out_vec (fst (run_opencl_radix kh ks 2 (first_call enforcing [2, 1] [] []))) = [2, 1]
   \<and> keybuf (pass_loop build_group_histogram scatter_stable 2 PASSES
              (prepare 2 (first_call lenient [2, 1] [] []))) MemA = [1, 2]"
proof -
  let ?st = "first_call enforcing [2, 1] [] []"
  let ?S = "pass_loop kh ks 2 PASSES (prepare 2 ?st)"
  have "sized 2 (prepare 2 ?st)"
    by (rule sized_prepare)
  moreover have "read_only_write (prepare 2 ?st) = enforcing"
    by (simp add: prepare_fields first_call_fields)
  ultimately have "keybuf ?S MemA = keybuf (prepare 2 ?st) MemA"
    by (rule enforcing_keeps)
  then have "keybuf ?S MemA = [2, 1]"
    by (simp add: prepare_fields first_call_fields resize_def)
  then have kb: "keybuf ?S (buf_in ?S) = [2, 1]"
    by (simp only: odd_pass_destination)
  have ns: "\<not> sorted (keybuf ?S (buf_in ?S))"
    unfolding kb by (rule not_sorted_21)
  have out: "out_vec (fst (run_opencl_radix kh ks 2 ?st)) = [2, 1]"
    by (simp add: run_created [OF buffers_created_2] enforcing_out first_call_fields resize_def)
  have dst: "buf_out (pass_state kh ks 2 ?st (2 * k + 1)) = MemA"
    by (rule odd_pass_destination)
  have fl: "flags (pass_state kh ks 2 ?st (2 * k + 1)) MemA = CL_MEM_READ_ONLY"
    by (rule odd_pass_destination)
  have src: "buf_in ?S = MemA"
    by (rule odd_pass_destination)
  let ?l = "first_call lenient [2, 1] [] []"
  have "length (in_vec ?l) = unat (2 :: u64)" "unat (2 :: u64) < 2 ^ 32"
    "buffers_created 2" "read_only_write ?l = lenient"
    by (simp_all add: first_call_fields buffers_created_2)
  then have "out_vec (fst (run_opencl_radix build_group_histogram scatter_stable 2 ?l))
      = sort (in_vec ?l)"
    by (rule radix_sort_lenient)
  then have "out_vec (final_state build_group_histogram scatter_stable 2 ?l) = [1, 2]"
    by (simp only: run_created [OF buffers_created_2] first_call_fields sort_21)
  then have len: "keybuf (pass_loop build_group_histogram scatter_stable 2 PASSES (prepare 2 ?l))
      MemA = [1, 2]"
    by (simp only: out_vec_final odd_pass_destination)
  from dst fl src kb ns out len show ?thesis
    by (intro conjI)
qed



subsection \<open>Offsets\<close>

lemma digit_total:
  "(\<Sum>c<RADIX. length (filter (\<lambda>j. digit sh (src ! j) = c) [0..<n])) = n"
proof -
  have "(\<Sum>c<RADIX. length (filter (\<lambda>j. digit sh (src ! j) = c) [0..<n]))
      = length (filter (\<lambda>j. digit sh (src ! j) < RADIX) [0..<n])"
    by (rule count_below)
  then show ?thesis
    by (simp add: digit_less)
qed

lemma hist_bt_unat:
  assumes sz: "sized N st" and n: "unat N < 2 ^ 32" and d: "d < RADIX"
  shows "unat (bt (at_scatter build_group_histogram N p st) ! d)
    = length (filter (\<lambda>j. digit (shift_of p) (keybuf st (buf_in st) ! j) = d) [0..<unat N])"
proof -
  let ?P = "\<lambda>j. digit (shift_of p) (keybuf st (buf_in st) ! j) = d"
  have m: "min (unat N) (unat (NUM_GROUPS N) * LOCAL_SZ) = unat N"
    using groups_cover [OF n] by simp
  have eq: "(\<Sum>e<unat (NUM_GROUPS N).
          group_count (keybuf st (buf_in st)) (unat N) (shift_of p) e d)
      = length (filter ?P [0..<unat N])"
    unfolding group_count_def group_members_def by (simp only: count_groups m)
  have "bt (at_scatter build_group_histogram N p st) ! d
      = of_nat (\<Sum>e<unat (NUM_GROUPS N).
          group_count (keybuf st (buf_in st)) (unat N) (shift_of p) e d)"
    using hist_bt [OF sz n d, of p] by (simp only: of_nat_sum)
  then have "bt (at_scatter build_group_histogram N p st) ! d
      = of_nat (length (filter ?P [0..<unat N]))"
    by (simp only: eq)
  moreover have "length (filter ?P [0..<unat N]) < 2 ^ 32"
    using length_filter_le [of ?P "[0..<unat N]"] n by simp
  ultimately show ?thesis
    by (simp only: unat_of_nat_small)
qed

text \<open>
  Claim C3 (bucket totals and global prefix). In every pass \<open>p\<close>, with the Histogram
  Stage as the spec describes it, any scatter kernel and \<open>N < 2\<^sup>3\<^sup>2\<close>: the bucket total of
  each digit is the sum of its histogram counts over all groups, the bucket totals add up
  to \<open>N\<close>, \<^verbatim>\<open>pg[0]\<close> is 0 and \<^verbatim>\<open>pg[d] = pg[d - 1] + bt[d - 1]\<close> for every digit
  \<open>d \<ge> 1\<close>. The device is arbitrary.
\<close>
theorem offsets_consistent:
  assumes "unat N < 2 ^ 32" and "d < RADIX"
  shows "bt (pass_state build_group_histogram ks N st p) ! d
           = (\<Sum>g<unat (NUM_GROUPS N).
                gh (pass_state build_group_histogram ks N st p) ! (g * RADIX + d))
    \<and> (\<Sum>c<RADIX. unat (bt (pass_state build_group_histogram ks N st p) ! c)) = unat N
    \<and> pg (pass_state build_group_histogram ks N st p) ! 0 = 0
    \<and> (0 < d \<longrightarrow> pg (pass_state build_group_histogram ks N st p) ! d
           = pg (pass_state build_group_histogram ks N st p) ! (d - 1)
             + bt (pass_state build_group_histogram ks N st p) ! (d - 1))"
proof -
  let ?S = "pass_loop build_group_histogram ks N p (prepare N st)"
  let ?T = "at_scatter build_group_histogram N p ?S"
  have sz: "sized N ?S"
    by (simp add: sized_pass_loop sized_prepare)
  then have lens: "length (bt ?S) = RADIX" "RADIX \<le> length (pg ?S)"
    by (simp_all add: sized_def)
  have c1: "bt ?T ! d = (\<Sum>g<unat (NUM_GROUPS N). gh ?T ! (g * RADIX + d))"
    using assms lens by (simp add: at_scatter_offsets nth_bucket_totals)
  have "(\<Sum>c<RADIX. unat (bt ?T ! c))
      = (\<Sum>c<RADIX. length (filter (\<lambda>j. digit (shift_of p) (keybuf ?S (buf_in ?S) ! j) = c)
           [0..<unat N]))"
    by (rule sum.cong) (simp_all add: hist_bt_unat [OF sz assms(1)])
  then have c2: "(\<Sum>c<RADIX. unat (bt ?T ! c)) = unat N"
    by (simp only: digit_total)
  have prefix: "pg ?T ! c = (\<Sum>e<c. bt ?T ! e)" if "c < RADIX" for c
    using that lens by (simp add: at_scatter_offsets nth_global_prefix)
  have c3: "pg ?T ! 0 = 0"
    using prefix [of 0] by (simp add: RADIX_eq)
  have c4: "pg ?T ! d = pg ?T ! (d - 1) + bt ?T ! (d - 1)" if "0 < d"
  proof -
    from that obtain d' where d': "d = Suc d'"
      by (cases d) simp_all
    with assms have "d' < RADIX"
      by simp
    then show ?thesis
      using prefix [of d] prefix [of d'] assms by (simp add: d')
  qed
  from c1 c2 c3 c4 show ?thesis
    by (simp add: pass_state_def)
qed

theorem offsets_consistent_witness:
  "unat (4 :: u64) < 2 ^ 32 \<and> 3 < RADIX
   \<and> (\<Sum>c<RADIX. unat (bt (pass_state build_group_histogram scatter_stable 4
          (first_call enforcing [5, 3, 3, 1] [] []) 0) ! c)) = unat (4 :: u64)
   \<and> pg (pass_state build_group_histogram scatter_stable 4 (first_call enforcing [5, 3, 3, 1] [] []) 0) ! 3
      = pg (pass_state build_group_histogram scatter_stable 4 (first_call enforcing [5, 3, 3, 1] [] []) 0) ! 2
        + bt (pass_state build_group_histogram scatter_stable 4 (first_call enforcing [5, 3, 3, 1] [] []) 0) ! 2"
  using offsets_consistent [of 4 3 scatter_stable "first_call enforcing [5, 3, 3, 1] [] []" 0]
  by (simp add: RADIX_eq)

subsection \<open>Stability\<close>

lemma key_position_step:
  assumes n: "unat N < 2 ^ 32" and i: "key_position N st k i < unat N"
  shows "key_position N st (Suc k) i
    = stable_pos
        (\<lambda>j. digit (shift_of k)
          (keybuf (pass_loop build_group_histogram scatter_stable N k (prepare N st))
            (buf_in (pass_loop build_group_histogram scatter_stable N k (prepare N st))) ! j))
        (unat N) (key_position N st k i)"
proof -
  let ?S = "pass_loop build_group_histogram scatter_stable N k (prepare N st)"
  have sz: "sized N ?S"
    by (simp add: sized_pass_loop sized_prepare)
  have "key_position N st (Suc k) i
      = scatter_index (keybuf ?S (buf_in ?S))
          (buf_pg (at_scatter build_group_histogram N k ?S))
          (buf_go (at_scatter build_group_histogram N k ?S)) (shift_of k)
          (key_position N st k i)"
    by (simp add: Let_def pass_state_def at_scatter_fields)
  also have "\<dots> = stable_pos (\<lambda>j. digit (shift_of k) (keybuf ?S (buf_in ?S) ! j)) (unat N)
      (key_position N st k i)"
    using sz n i by (rule scatter_index_stable)
  finally show ?thesis .
qed

lemma key_position_holds:
  assumes len: "length (in_vec st) = unat N" and n: "unat N < 2 ^ 32" and i: "i < unat N"
    and dev: "read_only_write st = lenient"
  shows "key_position N st k i < unat N
    \<and> keybuf (pass_loop build_group_histogram scatter_stable N k (prepare N st))
        (buf_in (pass_loop build_group_histogram scatter_stable N k (prepare N st)))
        ! key_position N st k i = in_vec st ! i"
proof (induction k)
  case 0
  show ?case
    using i by (simp add: pass_loop_0 prepare_fields resize_same [OF len])
next
  case (Suc k)
  let ?S = "pass_loop build_group_histogram scatter_stable N k (prepare N st)"
  let ?f = "\<lambda>j. digit (shift_of k) (keybuf ?S (buf_in ?S) ! j)"
  have sz: "sized N ?S"
    by (simp add: sized_pass_loop sized_prepare)
  have w: "flags ?S (buf_out ?S) = CL_MEM_READ_WRITE \<or> read_only_write ?S = lenient"
    by (simp add: pass_loop_fields prepare_fields dev)
  from Suc.IH have below: "key_position N st k i < unat N"
    and here: "keybuf ?S (buf_in ?S) ! key_position N st k i = in_vec st ! i"
    by simp_all
  have step: "key_position N st (Suc k) i = stable_pos ?f (unat N) (key_position N st k i)"
    using n below by (rule key_position_step)
  have "stable_pos ?f (unat N) (key_position N st k i) < unat N"
    using below by (rule stable_pos_bound)
  moreover have "keybuf (radix_pass build_group_histogram scatter_stable N k ?S) (buf_out ?S)
      ! stable_pos ?f (unat N) (key_position N st k i)
      = keybuf ?S (buf_in ?S) ! key_position N st k i"
    using sz n w below by (rule scatter_pass)
  ultimately show ?case
    by (simp only: step pass_loop_Suc radix_pass_fields here simp_thms)
qed

lemma key_position_order:
  assumes len: "length (in_vec st) = unat N" and n: "unat N < 2 ^ 32"
    and ij: "i < j" "j < unat N" and eq: "in_vec st ! i = in_vec st ! j"
    and dev: "read_only_write st = lenient"
  shows "key_position N st k i < key_position N st k j"
proof (induction k)
  case 0
  show ?case
    using ij by simp
next
  case (Suc k)
  let ?S = "pass_loop build_group_histogram scatter_stable N k (prepare N st)"
  let ?f = "\<lambda>j. digit (shift_of k) (keybuf ?S (buf_in ?S) ! j)"
  from ij have i: "i < unat N"
    by simp
  have pi: "key_position N st k i < unat N"
    "keybuf ?S (buf_in ?S) ! key_position N st k i = in_vec st ! i"
    using key_position_holds [OF len n i dev, of k] by simp_all
  have pj: "key_position N st k j < unat N"
    "keybuf ?S (buf_in ?S) ! key_position N st k j = in_vec st ! j"
    using key_position_holds [OF len n ij(2) dev, of k] by simp_all
  have "?f (key_position N st k i) = ?f (key_position N st k j)"
    by (simp only: pi pj eq)
  with Suc.IH have "?f (key_position N st k i) < ?f (key_position N st k j)
      \<or> (?f (key_position N st k i) = ?f (key_position N st k j)
          \<and> key_position N st k i < key_position N st k j)"
    by simp
  with pi(1) pj(1) have "stable_pos ?f (unat N) (key_position N st k i)
      < stable_pos ?f (unat N) (key_position N st k j)"
    by (rule stable_pos_less)
  then show ?case
    by (simp only: key_position_step [OF n pi(1)] key_position_step [OF n pj(1)])
qed
text \<open>
  On a device that ignores the read-only flag, with the two device stages as the spec
  describes them: the key that starts at index \<open>i\<close> of the input stands at
  \<open>key_position N st PASSES i\<close> in the output, and two equal keys of the input stand in
  the output in the order they had in the input.
\<close>

lemma stability_lenient:
  assumes "length (in_vec st) = unat N" and "unat N < 2 ^ 32" and "buffers_created N"
    and "read_only_write st = lenient" and "i < j" and "j < unat N"
  shows "key_position N st PASSES i < unat N"
    and "out_vec (fst (run_opencl_radix build_group_histogram scatter_stable N st))
         ! key_position N st PASSES i = in_vec st ! i"
    and "in_vec st ! i = in_vec st ! j
       \<Longrightarrow> key_position N st PASSES i < key_position N st PASSES j"
proof -
  from assms(5,6) have i: "i < unat N"
    by simp
  show "key_position N st PASSES i < unat N"
    using key_position_holds [OF assms(1,2) i assms(4), of PASSES] by simp
  show "out_vec (fst (run_opencl_radix build_group_histogram scatter_stable N st))
         ! key_position N st PASSES i = in_vec st ! i"
    using key_position_holds [OF assms(1,2) i assms(4), of PASSES]
    by (simp add: run_created [OF assms(3)] out_vec_final)
  show "key_position N st PASSES i < key_position N st PASSES j"
    if "in_vec st ! i = in_vec st ! j"
    using assms(1,2,5,6) that assms(4) by (rule key_position_order)
qed

text \<open>
  Pass 1 of a run on the input \<open>[2, 1]\<close> with \<open>N = 2\<close> and the two device stages as the
  spec describes them, on any device: the source buffer holds \<open>[1, 2]\<close>, the destination
  is the read-only buffer, and the destination index of source key 0 is 0.
\<close>

lemma second_pass_21:
  fixes dev :: "key list \<Rightarrow> key list \<Rightarrow> key list"
  shows "buf_in (pass_state build_group_histogram scatter_stable 2
            (first_call dev [2, 1] [] []) 1) = MemB"
    and "buf_out (pass_state build_group_histogram scatter_stable 2
            (first_call dev [2, 1] [] []) 1) = MemA"
    and "flags (pass_state build_group_histogram scatter_stable 2
            (first_call dev [2, 1] [] []) 1) MemA = CL_MEM_READ_ONLY"
    and "keybuf (pass_state build_group_histogram scatter_stable 2
            (first_call dev [2, 1] [] []) 1) MemB = [1, 2]"
    and "scatter_index
           (keybuf (pass_state build_group_histogram scatter_stable 2
                     (first_call dev [2, 1] [] []) 1) MemB)
           (buf_pg (pass_state build_group_histogram scatter_stable 2
                     (first_call dev [2, 1] [] []) 1))
           (buf_go (pass_state build_group_histogram scatter_stable 2
                     (first_call dev [2, 1] [] []) 1)) (shift_of 1) 0 = 0"
    and "stable_pos
           (\<lambda>j. digit (shift_of 1)
              (keybuf (pass_loop build_group_histogram scatter_stable 2 1
                        (prepare 2 (first_call dev [2, 1] [] [])))
                 (buf_in (pass_loop build_group_histogram scatter_stable 2 1
                        (prepare 2 (first_call dev [2, 1] [] [])))) ! j))
           (unat (2 :: u64)) 0 = 0"
proof -
  let ?st = "first_call dev [2, 1] [] []"
  let ?P = "prepare 2 ?st"
  let ?S = "pass_loop build_group_histogram scatter_stable 2 1 ?P"
  let ?T = "pass_state build_group_histogram scatter_stable 2 ?st 1"
  let ?f = "\<lambda>j. digit (shift_of 0) (keybuf ?P (buf_in ?P) ! j)"
  let ?g = "\<lambda>j. digit (shift_of 1) (keybuf ?S (buf_in ?S) ! j)"
  have n: "unat (2 :: u64) < 2 ^ 32"
    by simp
  have szP: "sized 2 ?P"
    by (rule sized_prepare)
  have szS: "sized 2 ?S"
    using szP by (rule sized_pass_loop)
  have S: "?S = radix_pass build_group_histogram scatter_stable 2 0 ?P"
    by (simp add: pass_loop_def)
  have T: "?T = at_scatter build_group_histogram 2 1 ?S"
    by (simp add: pass_state_def)
  have hP: "buf_in ?P = MemA" "buf_out ?P = MemB" "keybuf ?P MemA = [2, 1]"
    by (simp_all add: prepare_fields first_call_fields resize_def)
  have hS: "buf_in ?S = MemB" "buf_out ?S = MemA"
    by (simp_all add: pass_loop_handles hP)
  have w: "flags ?P (buf_out ?P) = CL_MEM_READ_WRITE \<or> read_only_write ?P = lenient"
    using szP by (simp add: sized_def hP)
  have d0: "digit (shift_of 0) k = unat k mod 256" for k :: key
    by (simp add: digit_nat shift_of_def)
  have first: "stable_pos ?f (unat (2 :: u64)) 0 = 1" "stable_pos ?f (unat (2 :: u64)) 1 = 0"
    by (simp_all add: stable_pos_def hP d0 upt_rec)
  have "keybuf (radix_pass build_group_histogram scatter_stable 2 0 ?P) (buf_out ?P)
      ! stable_pos ?f (unat (2 :: u64)) 0 = keybuf ?P (buf_in ?P) ! 0"
    using szP n w by (rule scatter_pass) simp
  then have k1: "keybuf ?S MemB ! 1 = 2"
    unfolding S first by (simp add: hP)
  have "keybuf (radix_pass build_group_histogram scatter_stable 2 0 ?P) (buf_out ?P)
      ! stable_pos ?f (unat (2 :: u64)) 1 = keybuf ?P (buf_in ?P) ! 1"
    using szP n w by (rule scatter_pass) simp
  then have k0: "keybuf ?S MemB ! 0 = 1"
    unfolding S first by (simp add: hP)
  have "length (keybuf ?S MemB) = unat (2 :: u64)"
    using szS by (rule length_keybuf)
  then have len: "length (keybuf ?S MemB) = 2"
    by simp
  have src: "keybuf ?S MemB = [1, 2]"
  proof (rule nth_equalityI)
    show "length (keybuf ?S MemB) = length [1, 2 :: key]"
      using len by simp
    show "keybuf ?S MemB ! i = [1, 2] ! i" if "i < length (keybuf ?S MemB)" for i
    proof -
      from that len have "i = 0 \<or> i = 1"
        by auto
      then show ?thesis
        using k0 k1 by auto
    qed
  qed
  have "stable_pos ?g (unat (2 :: u64)) 0
      = stable_pos (\<lambda>j. digit (shift_of 1) ([1, 2 :: key] ! j)) (unat (2 :: u64)) 0"
    by (simp only: hS src)
  also have "\<dots> = 0"
    by (simp add: stable_pos_def digit_nat shift_of_def BITS_def upt_rec)
  finally show sp: "stable_pos ?g (unat (2 :: u64)) 0 = 0" .
  have "scatter_index (keybuf ?S (buf_in ?S)) (buf_pg ?T) (buf_go ?T) (shift_of 1) 0
      = stable_pos ?g (unat (2 :: u64)) 0"
    unfolding T using szS n by (rule scatter_index_stable) simp
  then have "scatter_index (keybuf ?S (buf_in ?S)) (buf_pg ?T) (buf_go ?T) (shift_of 1) 0 = 0"
    by (simp only: sp)
  then have idx: "scatter_index (keybuf ?S MemB) (buf_pg ?T) (buf_go ?T) (shift_of 1) 0 = 0"
    by (simp only: hS)
  show "buf_in ?T = MemB" and "buf_out ?T = MemA"
    by (simp_all only: T at_scatter_fields hS)
  have "sized 2 ?T"
    by (rule sized_pass_state)
  then show "flags ?T MemA = CL_MEM_READ_ONLY"
    by (simp add: sized_def)
  show c4: "keybuf ?T MemB = [1, 2]"
    by (simp only: T at_scatter_fields src)
  show "scatter_index (keybuf ?T MemB) (buf_pg ?T) (buf_go ?T) (shift_of 1) 0 = 0"
    using idx by (simp only: c4 src)
qed

text \<open>
  Claim C2 (stability). In pass 1 of a run on the input \<open>[2, 1]\<close> with \<open>N = 2\<close>, with the
  two device stages as the spec describes them, the source buffer holds \<open>[1, 2]\<close> and the
  destination is the buffer created \<^verbatim>\<open>CL_MEM_READ_ONLY\<close>. The destination index
  \<open>pg[digit] + go[group, digit] + rank\<close> of source key 0, which is 1, is 0. On a device
  that discards kernel writes to a read-only buffer the destination holds 2 at index 0
  after the pass: the key has not been written there. On a device that ignores the flag
  it holds the key 1.
\<close>
theorem scatter_write_discarded:
  "buf_in (pass_state build_group_histogram scatter_stable 2
            (first_call enforcing [2, 1] [] []) 1) = MemB
   \<and> buf_out (pass_state build_group_histogram scatter_stable 2
            (first_call enforcing [2, 1] [] []) 1) = MemA
   \<and> flags (pass_state build_group_histogram scatter_stable 2
            (first_call enforcing [2, 1] [] []) 1) MemA = CL_MEM_READ_ONLY
   \<and> keybuf (pass_state build_group_histogram scatter_stable 2
            (first_call enforcing [2, 1] [] []) 1) MemB = [1, 2]
   \<and> unat (buf_pg (pass_state build_group_histogram scatter_stable 2
                    (first_call enforcing [2, 1] [] []) 1)
             ! digit (shift_of 1) 1)
       + unat (buf_go (pass_state build_group_histogram scatter_stable 2
                    (first_call enforcing [2, 1] [] []) 1)
             ! (0 div LOCAL_SZ * RADIX + digit (shift_of 1) 1))
       + rank (keybuf (pass_state build_group_histogram scatter_stable 2
                    (first_call enforcing [2, 1] [] []) 1) MemB) (shift_of 1) 0
       = 0
   \<and> keybuf (pass_loop build_group_histogram scatter_stable 2 (Suc 1)
              (prepare 2 (first_call enforcing [2, 1] [] []))) MemA ! 0 = 2
   \<and> keybuf (pass_loop build_group_histogram scatter_stable 2 (Suc 1)
              (prepare 2 (first_call lenient [2, 1] [] []))) MemA ! 0 = 1"
proof -
  let ?e = "first_call enforcing [2, 1] [] []"
  let ?l = "first_call lenient [2, 1] [] []"
  let ?T = "pass_state build_group_histogram scatter_stable 2 ?e 1"
  let ?S = "pass_loop build_group_histogram scatter_stable 2 1 (prepare 2 ?l)"
  let ?g = "\<lambda>j. digit (shift_of 1) (keybuf ?S (buf_in ?S) ! j)"
  have c1: "buf_in ?T = MemB" and c2: "buf_out ?T = MemA"
    and c3: "flags ?T MemA = CL_MEM_READ_ONLY" and c4: "keybuf ?T MemB = [1, 2]"
    by (rule second_pass_21)+
  have "scatter_index (keybuf ?T MemB) (buf_pg ?T) (buf_go ?T) (shift_of 1) 0 = 0"
    by (rule second_pass_21)
  then have c5: "unat (buf_pg ?T ! digit (shift_of 1) 1)
       + unat (buf_go ?T ! (0 div LOCAL_SZ * RADIX + digit (shift_of 1) 1))
       + rank (keybuf ?T MemB) (shift_of 1) 0 = 0"
    by (simp only: scatter_index_def c4 nth_Cons_0)
  have "sized 2 (prepare 2 ?e)"
    by (rule sized_prepare)
  moreover have "read_only_write (prepare 2 ?e) = enforcing"
    by (simp add: prepare_fields first_call_fields)
  ultimately have "keybuf (pass_loop build_group_histogram scatter_stable 2 (Suc 1)
      (prepare 2 ?e)) MemA = keybuf (prepare 2 ?e) MemA"
    by (rule enforcing_keeps)
  then have c6: "keybuf (pass_loop build_group_histogram scatter_stable 2 (Suc 1)
      (prepare 2 ?e)) MemA ! 0 = 2"
    by (simp add: prepare_fields first_call_fields resize_def)
  have szS: "sized 2 ?S"
    by (simp add: sized_pass_loop sized_prepare)
  have w: "flags ?S (buf_out ?S) = CL_MEM_READ_WRITE \<or> read_only_write ?S = lenient"
    by (simp add: pass_loop_fields prepare_fields first_call_fields)
  have hS: "buf_in ?S = MemB" "buf_out ?S = MemA"
    by (simp_all add: pass_loop_handles prepare_fields)
  have src: "keybuf ?S MemB = [1, 2]"
    using second_pass_21(4) [of lenient] by (simp only: pass_state_def at_scatter_fields)
  have sp: "stable_pos ?g (unat (2 :: u64)) 0 = 0"
    by (rule second_pass_21)
  have "keybuf (radix_pass build_group_histogram scatter_stable 2 1 ?S) (buf_out ?S)
      ! stable_pos ?g (unat (2 :: u64)) 0 = keybuf ?S (buf_in ?S) ! 0"
    using szS _ w by (rule scatter_pass) simp_all
  then have "keybuf (radix_pass build_group_histogram scatter_stable 2 1 ?S) (buf_out ?S) ! 0
      = keybuf ?S (buf_in ?S) ! 0"
    by (simp only: sp)
  then have "keybuf (radix_pass build_group_histogram scatter_stable 2 1 ?S) MemA ! 0 = 1"
    by (simp only: hS src nth_Cons_0)
  then have c7: "keybuf (pass_loop build_group_histogram scatter_stable 2 (Suc 1)
      (prepare 2 ?l)) MemA ! 0 = 1"
    by (simp only: pass_loop_Suc)
  from c1 c2 c3 c4 c5 c6 c7 show ?thesis
    by (intro conjI)
qed

end
